theory Spec2Isabelle
  imports Main "HOL-Library.Word"
begin

section \<open>The interpreter of bfi.c\<close>

text \<open>
  A shallow embedding of \<^verbatim>\<open>prepare\<close> and \<^verbatim>\<open>execute\<close> of \<^verbatim>\<open>src/bfi.c\<close>.
  The C globals are the fields of one record that every function takes and returns.
  The standard streams are lists: \<^verbatim>\<open>stdin\<close> the bytes still to be read, \<^verbatim>\<open>stdout\<close> and
  \<^verbatim>\<open>stderr\<close> what has been written so far, oldest first.
\<close>

subsection \<open>Data\<close>

type_synonym byte = char
  \<comment> \<open>\<^verbatim>\<open>unsigned char\<close>: a byte of the source buffer\<close>

type_synonym cell = "8 word"
  \<comment> \<open>\<^verbatim>\<open>uint8_t\<close>: a tape cell, and a byte of the standard input\<close>

definition CELL_COUNT :: nat where
  "CELL_COUNT = 30000"

text \<open>
  \<^verbatim>\<open>size_t\<close> values are natural numbers. The arithmetic of \<^verbatim>\<open>execute\<close> on them is
  written with the wrap-around of a 64-bit \<^verbatim>\<open>size_t\<close>; the counters of \<^verbatim>\<open>prepare\<close>
  (\<^verbatim>\<open>i\<close>, \<^verbatim>\<open>stack_count\<close>, \<^verbatim>\<open>line\<close>) never exceed \<^verbatim>\<open>source_size + 1\<close> and are
  plain natural numbers.
\<close>

definition SIZE_MAX :: nat where
  "SIZE_MAX = 2 ^ 64 - 1"

definition size_add :: "nat \<Rightarrow> nat \<Rightarrow> nat" where
  "size_add a b = (a + b) mod (SIZE_MAX + 1)"

definition size_sub :: "nat \<Rightarrow> nat \<Rightarrow> nat" where
  "size_sub a b = (a + (SIZE_MAX + 1 - b mod (SIZE_MAX + 1))) mod (SIZE_MAX + 1)"

text \<open>
  What \<^verbatim>\<open>errorf\<close> is called with: the format string (one constructor each) and the
  line number given for \<^verbatim>\<open>%zu\<close>.
\<close>

datatype diag =
    Unbalanced_close nat       \<comment> \<open>\<^verbatim>\<open>[line %zu] Unbalanced ']'\<close>\<close>
  | Unbalanced_open nat        \<comment> \<open>\<^verbatim>\<open>[line %zu] Unbalanced '['\<close>\<close>
  | Right_out_of_bounds nat    \<comment> \<open>\<^verbatim>\<open>[line %zu] '>' causes cell out of bounds\<close>\<close>
  | Left_out_of_bounds nat     \<comment> \<open>\<^verbatim>\<open>[line %zu] '<' causes cell out of bounds\<close>\<close>

text \<open>
  What is written to the standard output: a raw byte (\<^verbatim>\<open>fputc\<close>), the header line of the
  table of \<^verbatim>\<open>#\<close>, or one of its rows, with the arguments of its \<^verbatim>\<open>printf\<close>: the index,
  the value, and whether the row carries the mark \<^verbatim>\<open>" <"\<close>.
\<close>

datatype out_event =
    Put cell
  | Dump_header
  | Dump_row nat cell bool

text \<open>
  \<^verbatim>\<open>lines\<close> and \<^verbatim>\<open>jumps\<close> come from \<^verbatim>\<open>realloc\<close>, whose memory is indeterminate: a
  slot is \<open>None\<close> until the program stores into it.
\<close>

record globals =
  cells :: "cell list"
  cellptr :: nat
  debug :: bool
  source :: "byte list"
  lines :: "nat option list"
  jumps :: "nat option list"
  stdin :: "cell list"
  stdout :: "out_event list"
  stderr :: "diag list"

definition source_size :: "globals \<Rightarrow> nat" where
  "source_size g = length (source g)"

text \<open>
  The two things the C code can do that the language leaves undefined: reading a slot
  nothing was stored into, and reading past the end of an array.
\<close>

datatype fault =
    Uninitialised_read
  | Out_of_bounds_read nat

definition array_read :: "'a option list \<Rightarrow> nat \<Rightarrow> fault + 'a" where
  "array_read xs i =
     (if i < length xs
      then (case xs ! i of None \<Rightarrow> Inl Uninitialised_read | Some v \<Rightarrow> Inr v)
      else Inl (Out_of_bounds_read i))"

definition errorf :: "diag \<Rightarrow> globals \<Rightarrow> globals" where
  "errorf d g = g\<lparr>stderr := stderr g @ [d]\<rparr>"

text \<open>The state of the interpreter when \<^verbatim>\<open>main\<close> has read the file.\<close>

definition initial_globals :: "byte list \<Rightarrow> bool \<Rightarrow> cell list \<Rightarrow> globals" where
  "initial_globals src dbg inp =
     \<lparr>cells = replicate CELL_COUNT 0, cellptr = 0, debug = dbg, source = src,
      lines = [], jumps = [], stdin = inp, stdout = [], stderr = []\<rparr>"

subsection \<open>\<^verbatim>\<open>prepare\<close>\<close>

text \<open>
  The locals of \<^verbatim>\<open>prepare\<close>. The list \<open>stack\<close> is the live part of the C array, bottom
  first: \<^verbatim>\<open>stack_count\<close> is its length, \<^verbatim>\<open>stack[stack_count++] = i\<close> appends, and
  \<^verbatim>\<open>stack_count -= 1\<close> followed by \<^verbatim>\<open>stack[stack_count]\<close> takes the last element off.
\<close>

record prepare_locals =
  success :: bool
  stack :: "nat list"
  line :: nat

text \<open>The body of the first loop, for the byte at offset \<open>i\<close>.\<close>

definition scan_byte :: "nat \<Rightarrow> prepare_locals \<times> globals \<Rightarrow> prepare_locals \<times> globals" where
  "scan_byte i = (\<lambda>(l, g).
     let g1 = g\<lparr>lines := (lines g)[i := Some (line l)]\<rparr>;
         l1 = l\<lparr>line := line l + (if source g ! i = CHR 0x0A then 1 else 0)\<rparr>;
         l2 = (if source g ! i = CHR ''['' then l1\<lparr>stack := stack l1 @ [i]\<rparr> else l1)
     in if source g ! i = CHR '']''
        then (if stack l2 = []
              then (l2\<lparr>success := False\<rparr>, errorf (Unbalanced_close (line l2)) g1)
              else (let top = last (stack l2)
                    in (l2\<lparr>stack := butlast (stack l2)\<rparr>,
                        g1\<lparr>jumps := (jumps g1)[top := Some i, i := Some top]\<rparr>)))
        else (l2, g1))"

function prepare_scan :: "nat \<Rightarrow> prepare_locals \<times> globals \<Rightarrow> prepare_locals \<times> globals" where
  "prepare_scan i (l, g) =
     (if i < source_size g then prepare_scan (Suc i) (scan_byte i (l, g)) else (l, g))"
  by pat_completeness auto
termination
  by (relation "measure (\<lambda>(i, l, g). source_size g - i)")
     (auto simp: scan_byte_def source_size_def errorf_def Let_def)

text \<open>The second loop: one message for each offset left on the stack, bottom first.\<close>

fun report_stack :: "nat list \<Rightarrow> bool \<times> globals \<Rightarrow> fault + bool \<times> globals" where
  "report_stack [] (ok, g) = Inr (ok, g)"
| "report_stack (s # ss) (ok, g) =
     (case array_read (lines g) s of
        Inl f \<Rightarrow> Inl f
      | Inr n \<Rightarrow> report_stack ss (False, errorf (Unbalanced_open n) g))"

definition prepare :: "globals \<Rightarrow> fault + bool \<times> globals" where
  "prepare g =
     (let g0 = g\<lparr>lines := replicate (source_size g) None,
                   jumps := replicate (source_size g) None\<rparr>;
          (l, g1) = prepare_scan 0 (\<lparr>success = True, stack = [], line = 1\<rparr>, g0)
      in report_stack (stack l) (success l, g1))"

subsection \<open>\<^verbatim>\<open>execute\<close>\<close>

text \<open>
  How one pass through the \<^verbatim>\<open>switch\<close> ends: at the end of the loop body, by
  \<^verbatim>\<open>break\<close> or \<^verbatim>\<open>continue\<close>, with the value \<^verbatim>\<open>pc\<close> then has (the \<^verbatim>\<open>for\<close> statement
  increments it next); by \<^verbatim>\<open>return false\<close>; or in undefined behaviour.
\<close>

datatype flow =
    Proceed nat globals
  | Return_false globals
  | Fault fault

text \<open>
  The rows of the table of \<^verbatim>\<open>#\<close>: the loop \<^verbatim>\<open>for (i = begin; i < end; ++i)\<close>. The array
  \<^verbatim>\<open>cells\<close> has \<^verbatim>\<open>CELL_COUNT\<close> elements, and the loop reads \<^verbatim>\<open>cells[i]\<close> with no
  test of \<open>i\<close>.
\<close>

function dump_rows :: "nat \<Rightarrow> nat \<Rightarrow> globals \<Rightarrow> fault + globals" where
  "dump_rows i end g =
     (if i < end
      then (if i < CELL_COUNT
            then dump_rows (Suc i) end
                   (g\<lparr>stdout := stdout g @ [Dump_row i (cells g ! i) (i = cellptr g)]\<rparr>)
            else Inl (Out_of_bounds_read i))
      else Inr g)"
  by pat_completeness auto
termination
  by (relation "measure (\<lambda>(i, end, g). end - i)") auto

definition dump :: "globals \<Rightarrow> fault + globals" where
  "dump g =
     (let begin = (if cellptr g < 2 then 0 else size_sub (cellptr g) 2);
          end = size_add begin 10
      in dump_rows begin end (g\<lparr>stdout := stdout g @ [Dump_header]\<rparr>))"

text \<open>The \<^verbatim>\<open>switch\<close> of \<^verbatim>\<open>execute\<close>, for \<open>pc < source_size\<close>.\<close>

definition execute_switch :: "nat \<Rightarrow> globals \<Rightarrow> flow" where
  "execute_switch pc g =
     (let c = source g ! pc in
      if c = CHR ''+'' then
        Proceed pc (g\<lparr>cells := (cells g)[cellptr g := cells g ! cellptr g + 1]\<rparr>)
      else if c = CHR ''-'' then
        Proceed pc (g\<lparr>cells := (cells g)[cellptr g := cells g ! cellptr g - 1]\<rparr>)
      else if c = CHR ''>'' then
        (if cellptr g = CELL_COUNT - 1
         then (case array_read (lines g) pc of
                 Inl f \<Rightarrow> Fault f
               | Inr n \<Rightarrow> Return_false (errorf (Right_out_of_bounds n) g))
         else Proceed pc (g\<lparr>cellptr := size_add (cellptr g) 1\<rparr>))
      else if c = CHR ''<'' then
        (if cellptr g = 0
         then (case array_read (lines g) pc of
                 Inl f \<Rightarrow> Fault f
               | Inr n \<Rightarrow> Return_false (errorf (Left_out_of_bounds n) g))
         else Proceed pc (g\<lparr>cellptr := size_sub (cellptr g) 1\<rparr>))
      else if c = CHR ''['' then
        (if cells g ! cellptr g = 0
         then (case array_read (jumps g) pc of
                 Inl f \<Rightarrow> Fault f
               | Inr j \<Rightarrow> Proceed j g)
         else Proceed pc g)
      else if c = CHR '']'' then
        (case array_read (jumps g) pc of
           Inl f \<Rightarrow> Fault f
         | Inr j \<Rightarrow> Proceed (size_sub j 1) g)
      else if c = CHR ''.'' then
        Proceed pc (g\<lparr>stdout := stdout g @ [Put (cells g ! cellptr g)]\<rparr>)
      else if c = CHR '','' then
        (case stdin g of
           [] \<Rightarrow> Proceed pc g
         | b # bs \<Rightarrow> Proceed pc (g\<lparr>cells := (cells g)[cellptr g := b], stdin := bs\<rparr>))
      else if c = CHR ''#'' then
        (if \<not> debug g then Proceed pc g
         else (case dump g of Inl f \<Rightarrow> Fault f | Inr g' \<Rightarrow> Proceed pc g'))
      else Proceed pc g)"

text \<open>
  The configurations of the \<^verbatim>\<open>for\<close> loop: about to test \<open>pc < source_size\<close>; returned
  from \<^verbatim>\<open>execute\<close> with a result; or stopped in undefined behaviour.
\<close>

datatype config =
    Running nat globals
  | Returned bool globals
  | Crashed fault

text \<open>One iteration: the loop test, the \<^verbatim>\<open>switch\<close>, and \<^verbatim>\<open>++pc\<close>.\<close>

fun step :: "config \<Rightarrow> config" where
  "step (Running pc g) =
     (if pc < source_size g
      then (case execute_switch pc g of
              Proceed pc' g' \<Rightarrow> Running (size_add pc' 1) g'
            | Return_false g' \<Rightarrow> Returned False g'
            | Fault f \<Rightarrow> Crashed f)
      else Returned True g)"
| "step (Returned b g) = Returned b g"
| "step (Crashed f) = Crashed f"

text \<open>
  A program may loop forever, so the loop is run for a number of iterations: the result
  is still \<open>Running\<close> when these were not enough.
\<close>

fun run :: "nat \<Rightarrow> config \<Rightarrow> config" where
  "run 0 c = c"
| "run (Suc n) c = run n (step c)"

definition execute :: "nat \<Rightarrow> globals \<Rightarrow> config" where
  "execute fuel g = run fuel (Running 0 g)"

text \<open>\<^verbatim>\<open>main\<close> after the file is read: \<^verbatim>\<open>prepare() && execute()\<close>.\<close>

definition bfi :: "nat \<Rightarrow> byte list \<Rightarrow> bool \<Rightarrow> cell list \<Rightarrow> config" where
  "bfi fuel src dbg inp =
     (case prepare (initial_globals src dbg inp) of
        Inl f \<Rightarrow> Crashed f
      | Inr (ok, g) \<Rightarrow> if ok then execute fuel g else Returned False g)"

subsection \<open>The notions of the specification\<close>

text \<open>
  These definitions follow the words of the specification, not the code. The line number
  of the byte at an offset is one more than the number of newline bytes before it. A
  buffer is balanced when it has as many loop-open as loop-close bytes and no prefix
  of it has more loop-close than loop-open bytes. The loop-open at \<open>i\<close> and the
  loop-close at \<open>j\<close> are partners when the bytes strictly between them are balanced;
  a bracket is unmatched when it has no partner.
\<close>

definition line_of :: "byte list \<Rightarrow> nat \<Rightarrow> nat" where
  "line_of src i = 1 + count_list (take i src) (CHR 0x0A)"

definition balanced :: "byte list \<Rightarrow> bool" where
  "balanced src \<longleftrightarrow>
     count_list src (CHR ''['') = count_list src (CHR '']'') \<and>
     (\<forall>n \<in> {..length src}. count_list (take n src) (CHR '']'') \<le> count_list (take n src) (CHR ''[''))"

definition between :: "byte list \<Rightarrow> nat \<Rightarrow> nat \<Rightarrow> byte list" where
  "between src i j = take (j - Suc i) (drop (Suc i) src)"

definition matched :: "byte list \<Rightarrow> nat \<Rightarrow> nat \<Rightarrow> bool" where
  "matched src i j \<longleftrightarrow>
     i < j \<and> j < length src \<and> src ! i = CHR ''['' \<and> src ! j = CHR '']'' \<and>
     balanced (between src i j)"

definition unmatched_close :: "byte list \<Rightarrow> nat \<Rightarrow> bool" where
  "unmatched_close src j \<longleftrightarrow>
     j < length src \<and> src ! j = CHR '']'' \<and> \<not> (\<exists>i \<in> {..<j}. matched src i j)"

definition unmatched_open :: "byte list \<Rightarrow> nat \<Rightarrow> bool" where
  "unmatched_open src i \<longleftrightarrow>
     i < length src \<and> src ! i = CHR ''['' \<and> \<not> (\<exists>j \<in> {..<length src}. matched src i j)"

text \<open>
  The nesting depth after a run of bytes that starts at depth \<open>d\<close>, or \<open>None\<close> when a
  loop-close comes at depth 0: a recursive form of \<open>balanced\<close>, used in the proofs.
\<close>

fun nesting :: "nat \<Rightarrow> byte list \<Rightarrow> nat option" where
  "nesting d [] = Some d"
| "nesting d (c # cs) =
     (if c = CHR ''['' then nesting (Suc d) cs
      else if c = CHR '']'' then (if d = 0 then None else nesting (d - 1) cs)
      else nesting d cs)"


subsection \<open>Invariants of the scan\<close>

text \<open>
  What holds when the first loop of \<^verbatim>\<open>prepare\<close> has scanned the bytes before offset
  \<open>n\<close>: of the stack \<open>S\<close>, of the jump table \<open>J\<close>, of the line map \<open>L\<close> and the line
  counter, and of the messages written and the flag \<^verbatim>\<open>success\<close>. \<open>prepared g g'\<close> is what
  holds of the globals \<open>g'\<close> that \<^verbatim>\<open>prepare\<close> returns when called in \<open>g\<close>.
\<close>

definition stack_inv :: "byte list \<Rightarrow> nat \<Rightarrow> nat list \<Rightarrow> bool" where
  "stack_inv src n S \<longleftrightarrow>
     sorted_wrt (<) S \<and> (\<forall>s \<in> set S. s < n \<and> src ! s = CHR ''['') \<and>
     (\<forall>k < length S. nesting 0 (between src (S ! k) n) = Some (length S - Suc k))"

definition jumps_inv :: "byte list \<Rightarrow> nat \<Rightarrow> nat list \<Rightarrow> nat option list \<Rightarrow> bool" where
  "jumps_inv src n S J \<longleftrightarrow>
     length J = length src \<and>
     (\<forall>i < n. src ! i = CHR ''['' \<longrightarrow>
        i \<in> set S \<or> (\<exists>j < n. matched src i j \<and> J ! i = Some j \<and> J ! j = Some i)) \<and>
     (\<forall>j < n. src ! j = CHR '']'' \<longrightarrow>
        unmatched_close src j \<or>
        (\<exists>i < j. i \<notin> set S \<and> matched src i j \<and> J ! i = Some j \<and> J ! j = Some i))"

definition lines_inv :: "byte list \<Rightarrow> nat \<Rightarrow> nat option list \<Rightarrow> nat \<Rightarrow> bool" where
  "lines_inv src n L ln \<longleftrightarrow>
     length L = length src \<and> ln = line_of src n \<and> (\<forall>k < n. L ! k = Some (line_of src k))"

definition close_reports :: "byte list \<Rightarrow> nat \<Rightarrow> diag list" where
  "close_reports src n =
     map (\<lambda>j. Unbalanced_close (line_of src j)) (filter (unmatched_close src) [0..<n])"

definition open_reports :: "byte list \<Rightarrow> diag list" where
  "open_reports src =
     map (\<lambda>i. Unbalanced_open (line_of src i)) (filter (unmatched_open src) [0..<length src])"

definition report_inv :: "byte list \<Rightarrow> nat \<Rightarrow> nat list \<Rightarrow> bool \<Rightarrow> diag list \<Rightarrow> bool" where
  "report_inv src n S ok errs \<longleftrightarrow>
     errs = close_reports src n \<and> ok = (close_reports src n = []) \<and>
     nesting 0 (take n src) = (if ok then Some (length S) else None)"

definition scan_inv :: "globals \<Rightarrow> nat \<Rightarrow> prepare_locals \<times> globals \<Rightarrow> bool" where
  "scan_inv g0 n = (\<lambda>(l, g).
     n \<le> length (source g0) \<and>
     cells g = cells g0 \<and> cellptr g = cellptr g0 \<and> debug g = debug g0 \<and>
     source g = source g0 \<and> stdin g = stdin g0 \<and> stdout g = stdout g0 \<and>
     stack_inv (source g0) n (stack l) \<and>
     jumps_inv (source g0) n (stack l) (jumps g) \<and>
     lines_inv (source g0) n (lines g) (line l) \<and>
     (\<exists>errs. stderr g = stderr g0 @ errs \<and> report_inv (source g0) n (stack l) (success l) errs))"

definition prepared :: "globals \<Rightarrow> globals \<Rightarrow> bool" where
  "prepared g g' \<longleftrightarrow>
     cells g' = cells g \<and> cellptr g' = cellptr g \<and> debug g' = debug g \<and>
     source g' = source g \<and> stdin g' = stdin g \<and> stdout g' = stdout g \<and>
     lines g' = map (\<lambda>i. Some (line_of (source g) i)) [0..<length (source g)] \<and>
     stderr g' = stderr g @ close_reports (source g) (length (source g)) @ open_reports (source g) \<and>
     jumps_inv (source g) (length (source g))
       (filter (unmatched_open (source g)) [0..<length (source g)]) (jumps g')"

subsection \<open>Example states\<close>

text \<open>The program \<^verbatim>\<open>[]\<close> when \<^verbatim>\<open>prepare\<close> has returned.\<close>

definition empty_loop :: globals where
  "empty_loop = (initial_globals ''[]'' False [])\<lparr>lines := [Some 1, Some 1], jumps := [Some 1, Some 0]\<rparr>"


section \<open>Properties\<close>

subsection \<open>Arithmetic of \<^verbatim>\<open>size_t\<close>, and the loop\<close>

lemma size_add_small: "a + b \<le> SIZE_MAX \<Longrightarrow> size_add a b = a + b"
  by (simp add: size_add_def)

lemma size_sub_small: "b \<le> a \<Longrightarrow> a \<le> SIZE_MAX \<Longrightarrow> size_sub a b = a - b"
proof -
  assume "b \<le> a" "a \<le> SIZE_MAX"
  then have "a + (SIZE_MAX + 1 - b mod (SIZE_MAX + 1)) = (a - b) + (SIZE_MAX + 1)" by simp
  then have "size_sub a b = (a - b) mod (SIZE_MAX + 1)"
    unfolding size_sub_def by (metis mod_add_self2)
  with \<open>a \<le> SIZE_MAX\<close> show ?thesis by simp
qed

lemma size_sub_0_1: "size_sub 0 1 = SIZE_MAX"
  by (simp add: size_sub_def SIZE_MAX_def)

lemma size_add_max_1: "size_add SIZE_MAX 1 = 0"
  by (simp add: size_add_def SIZE_MAX_def)

lemma run_Returned: "run n (Returned b g) = Returned b g"
  by (induction n) simp_all

lemma run_Crashed: "run n (Crashed f) = Crashed f"
  by (induction n) simp_all

lemma run_add: "run (m + n) c = run n (run m c)"
  by (induction m arbitrary: c) simp_all

lemma dump_rows_frame:
  "dump_rows i e g = Inr g' \<Longrightarrow> g' = g\<lparr>stdout := stdout g'\<rparr>"
proof (induction i e g rule: dump_rows.induct)
  case (1 i e g)
  show ?case
  proof (cases "i < e")
    case False
    with "1.prems" show ?thesis by simp
  next
    case True
    show ?thesis
    proof (cases "i < CELL_COUNT")
      case False
      with True "1.prems" show ?thesis by simp
    next
      case inb: True
      let ?g1 = "g\<lparr>stdout := stdout g @ [Dump_row i (cells g ! i) (i = cellptr g)]\<rparr>"
      from True inb "1.prems" have "dump_rows (Suc i) e ?g1 = Inr g'" by simp
      from "1.IH" [OF True inb this] show ?thesis by simp
    qed
  qed
qed


subsection \<open>Balanced buffers and partners\<close>

lemma nesting_append:
  "nesting d (xs @ ys) = (case nesting d xs of None \<Rightarrow> None | Some e \<Rightarrow> nesting e ys)"
  by (induction xs arbitrary: d) auto

lemma nesting_shift:
  "nesting d xs = Some e \<Longrightarrow> nesting (d + k) xs = Some (e + k)"
proof (induction xs arbitrary: d)
  case Nil
  then show ?case by simp
next
  case (Cons c cs)
  show ?case
  proof (cases "c = CHR '']''")
    case True
    with Cons.prems have d: "d \<noteq> 0" and "nesting (d - 1) cs = Some e"
      by (auto split: if_splits)
    from Cons.IH [OF this(2)] d True show ?thesis by simp
  next
    case False
    with Cons.prems Cons.IH [of d] Cons.IH [of "Suc d"] show ?thesis
      by (auto split: if_splits)
  qed
qed

lemma all_le_Suc_split: "(\<forall>n \<le> Suc m. P n) \<longleftrightarrow> P 0 \<and> (\<forall>n \<le> m. P (Suc n))"
proof safe
  fix n assume "P 0" "\<forall>n \<le> m. P (Suc n)" "n \<le> Suc m"
  then show "P n" by (cases n) auto
qed auto

lemma nesting_counts:
  "nesting d xs = Some e \<longleftrightarrow>
     e + count_list xs (CHR '']'') = d + count_list xs (CHR ''['') \<and>
     (\<forall>n \<le> length xs. count_list (take n xs) (CHR '']'') \<le> d + count_list (take n xs) (CHR ''[''))"
proof (induction xs arbitrary: d)
  case Nil
  then show ?case by auto
next
  case (Cons c cs)
  note all = length_Cons all_le_Suc_split
  show ?case
  proof (cases "c = CHR ''[''")
    case True
    then show ?thesis by (simp only: all) (simp add: Cons.IH)
  next
    case False
    note nopen = this
    show ?thesis
    proof (cases "c = CHR '']''")
      case False
      with nopen show ?thesis by (simp only: all) (simp add: Cons.IH)
    next
      case True
      show ?thesis
      proof (cases "d = 0")
        case True
        with \<open>c = CHR '']''\<close> show ?thesis
          by (simp only: all) (auto intro: exI [where x = 0])
      next
        case False
        with \<open>c = CHR '']''\<close> show ?thesis by (simp only: all) (auto simp add: Cons.IH)
      qed
    qed
  qed
qed

lemma balanced_nesting: "balanced src \<longleftrightarrow> nesting 0 src = Some 0"
  by (auto simp: balanced_def nesting_counts)

lemma between_Suc:
  assumes "i < n" and "n < length src"
  shows "between src i (Suc n) = between src i n @ [src ! n]"
proof -
  from assms have a: "Suc n - Suc i = Suc (n - Suc i)" by simp
  from assms have b: "n - Suc i < length (drop (Suc i) src)" by simp
  from assms have c: "drop (Suc i) src ! (n - Suc i) = src ! n" by simp
  show ?thesis
    unfolding between_def a by (simp only: take_Suc_conv_app_nth [OF b] c)
qed

lemma between_empty: "between src n (Suc n) = []"
  by (simp add: between_def)

lemma between_split:
  assumes "i < k" and "k < j" and "j \<le> length src"
  shows "between src i j = between src i k @ src ! k # between src k j"
proof -
  from assms have a: "j - Suc i = (k - Suc i) + (j - k)" by simp
  from assms have b: "k - Suc i + Suc i = k" by simp
  from assms have c: "j - k = Suc (j - Suc k)" by simp
  from assms have d: "drop k src = src ! k # drop (Suc k) src"
    by (simp add: Cons_nth_drop_Suc)
  have "take (j - Suc i) (drop (Suc i) src) =
        take (k - Suc i) (drop (Suc i) src) @ take (j - k) (drop k src)"
    unfolding a by (simp only: take_add drop_drop b)
  also have "take (j - k) (drop k src) = src ! k # take (j - Suc k) (drop (Suc k) src)"
    unfolding c by (subst d) simp
  finally show ?thesis by (simp add: between_def)
qed

lemma matched_nesting: "matched src i j \<Longrightarrow> nesting 0 (between src i j) = Some 0"
  by (simp add: matched_def balanced_nesting)

lemma matched_close_unique:
  assumes "matched src i j" and "matched src i j'"
  shows "j = j'"
proof -
  have no: False if m: "matched src i a" "matched src i b" and lt: "a < b" for a b
  proof -
    from m lt have "between src i b = between src i a @ src ! a # between src a b"
      by (intro between_split) (auto simp: matched_def)
    moreover from m have "src ! a = CHR '']''" by (simp add: matched_def)
    ultimately have "nesting 0 (between src i b) = None"
      using matched_nesting [OF m(1)] by (simp add: nesting_append)
    with matched_nesting [OF m(2)] show False by simp
  qed
  from no [of j j'] no [of j' j] assms show ?thesis by (meson linorder_neqE_nat)
qed

lemma matched_open_unique:
  assumes "matched src i j" and "matched src i' j"
  shows "i = i'"
proof -
  have no: False if m: "matched src a j" "matched src b j" and lt: "a < b" for a b
  proof -
    from m lt have sp: "between src a j = between src a b @ src ! b # between src b j"
      by (intro between_split) (auto simp: matched_def)
    from m have ob: "src ! b = CHR ''[''" by (simp add: matched_def)
    show False
    proof (cases "nesting 0 (between src a b)")
      case None
      with sp matched_nesting [OF m(1)] show False by (simp add: nesting_append)
    next
      case (Some d)
      from nesting_shift [OF matched_nesting [OF m(2)], of "Suc d"]
      have "nesting (Suc d) (between src b j) = Some (Suc d)" by simp
      with sp ob Some matched_nesting [OF m(1)] show False by (simp add: nesting_append)
    qed
  qed
  from no [of i i'] no [of i' i] assms show ?thesis by (meson linorder_neqE_nat)
qed

subsection \<open>The scan of \<^verbatim>\<open>prepare\<close> keeps its invariants\<close>

lemma stack_inv_push:
  assumes "n < length src" and "src ! n = CHR ''[''" and "stack_inv src n S"
  shows "stack_inv src (Suc n) (S @ [n])"
proof -
  from assms(3) have so: "sorted_wrt (<) S" and el: "\<forall>s \<in> set S. s < n \<and> src ! s = CHR ''[''"
    and ne: "\<forall>k < length S. nesting 0 (between src (S ! k) n) = Some (length S - Suc k)"
    by (simp_all add: stack_inv_def)
  have "sorted_wrt (<) (S @ [n])" using so el by (simp add: sorted_wrt_append)
  moreover have "\<forall>s \<in> set (S @ [n]). s < Suc n \<and> src ! s = CHR ''[''"
    using el assms(2) by (auto simp: less_Suc_eq)
  moreover have "\<forall>k < length (S @ [n]).
      nesting 0 (between src ((S @ [n]) ! k) (Suc n)) = Some (length (S @ [n]) - Suc k)"
  proof (intro allI impI)
    fix k assume k: "k < length (S @ [n])"
    show "nesting 0 (between src ((S @ [n]) ! k) (Suc n)) = Some (length (S @ [n]) - Suc k)"
    proof (cases "k < length S")
      case True
      with el have "S ! k < n" by simp
      from between_Suc [OF this assms(1)] ne True assms(2) show ?thesis
        by (simp add: nth_append nesting_append Suc_diff_Suc)
    next
      case False
      with k have "k = length S" by simp
      then show ?thesis by (simp add: between_empty)
    qed
  qed
  ultimately show ?thesis by (simp only: stack_inv_def) 
qed

lemma stack_inv_skip:
  assumes "n < length src" and "src ! n \<noteq> CHR ''[''" and "src ! n \<noteq> CHR '']''"
    and "stack_inv src n S"
  shows "stack_inv src (Suc n) S"
proof -
  from assms(4) have so: "sorted_wrt (<) S" and el: "\<forall>s \<in> set S. s < n \<and> src ! s = CHR ''[''"
    and ne: "\<forall>k < length S. nesting 0 (between src (S ! k) n) = Some (length S - Suc k)"
    by (simp_all add: stack_inv_def)
  have "\<forall>k < length S. nesting 0 (between src (S ! k) (Suc n)) = Some (length S - Suc k)"
  proof (intro allI impI)
    fix k assume k: "k < length S"
    with el have "S ! k < n" by simp
    from between_Suc [OF this assms(1)] ne k assms(2,3)
    show "nesting 0 (between src (S ! k) (Suc n)) = Some (length S - Suc k)"
      by (simp add: nesting_append)
  qed
  with so el show ?thesis by (auto simp: stack_inv_def less_Suc_eq)
qed

lemma stack_inv_empty: "stack_inv src n []"
  by (simp add: stack_inv_def)

lemma stack_inv_pop:
  assumes "n < length src" and "src ! n = CHR '']''" and "S \<noteq> []" and "stack_inv src n S"
  shows "stack_inv src (Suc n) (butlast S)" and "matched src (last S) n"
    and "last S \<notin> set (butlast S)"
proof -
  from assms(4) have so: "sorted_wrt (<) S" and el: "\<forall>s \<in> set S. s < n \<and> src ! s = CHR ''[''"
    and ne: "\<forall>k < length S. nesting 0 (between src (S ! k) n) = Some (length S - Suc k)"
    by (simp_all add: stack_inv_def)
  from assms(3) have S: "S = butlast S @ [last S]" by simp
  from so have so': "sorted_wrt (<) (butlast S @ [last S])" using S by simp
  then have sb: "sorted_wrt (<) (butlast S)" and lt: "\<forall>x \<in> set (butlast S). x < last S"
    by (simp_all add: sorted_wrt_append)
  from lt show "last S \<notin> set (butlast S)" by auto
  from assms(3) have la: "last S = S ! (length S - 1)" by (simp add: last_conv_nth)
  from assms(3) el have top: "last S < n" "src ! last S = CHR ''[''" by simp_all
  from ne assms(3) la have "nesting 0 (between src (last S) n) = Some 0" by simp
  with top assms(1,2) show "matched src (last S) n"
    by (simp add: matched_def balanced_nesting)
  have "\<forall>k < length (butlast S).
      nesting 0 (between src (butlast S ! k) (Suc n)) = Some (length (butlast S) - Suc k)"
  proof (intro allI impI)
    fix k assume k: "k < length (butlast S)"
    then have kS: "k < length S" and d: "length S - Suc k \<noteq> 0" by simp_all
    from k have eq: "butlast S ! k = S ! k" by (simp add: nth_butlast)
    from kS el have "S ! k < n" by simp
    from between_Suc [OF this assms(1)] ne kS assms(2) d
    show "nesting 0 (between src (butlast S ! k) (Suc n)) = Some (length (butlast S) - Suc k)"
      by (simp add: eq nesting_append)
  qed
  moreover have "\<forall>s \<in> set (butlast S). s < Suc n \<and> src ! s = CHR ''[''"
    using el by (auto dest: in_set_butlastD simp: less_Suc_eq)
  ultimately show "stack_inv src (Suc n) (butlast S)"
    using sb by (simp only: stack_inv_def)
qed

lemma lines_inv_step:
  assumes "n < length src" and "lines_inv src n L ln"
  shows "lines_inv src (Suc n) (L[n := Some ln]) (ln + (if src ! n = CHR 0x0A then 1 else 0))"
proof -
  have "line_of src (Suc n) = line_of src n + (if src ! n = CHR 0x0A then 1 else 0)"
    using assms(1) by (simp add: line_of_def take_Suc_conv_app_nth)
  with assms show ?thesis
    by (auto simp: lines_inv_def less_Suc_eq nth_list_update)
qed

lemma jumps_inv_push:
  assumes "src ! n = CHR ''[''" and "jumps_inv src n S J"
  shows "jumps_inv src (Suc n) (S @ [n]) J"
proof -
  from assms(2) have len: "length J = length src"
    and op: "\<forall>i < n. src ! i = CHR ''['' \<longrightarrow>
        i \<in> set S \<or> (\<exists>j < n. matched src i j \<and> J ! i = Some j \<and> J ! j = Some i)"
    and cl: "\<forall>j < n. src ! j = CHR '']'' \<longrightarrow> unmatched_close src j \<or>
        (\<exists>i < j. i \<notin> set S \<and> matched src i j \<and> J ! i = Some j \<and> J ! j = Some i)"
    by (simp_all add: jumps_inv_def)
  have "\<forall>i < Suc n. src ! i = CHR ''['' \<longrightarrow>
        i \<in> set (S @ [n]) \<or> (\<exists>j < Suc n. matched src i j \<and> J ! i = Some j \<and> J ! j = Some i)"
    using op by (auto simp: less_Suc_eq)
  moreover have "\<forall>j < Suc n. src ! j = CHR '']'' \<longrightarrow> unmatched_close src j \<or>
        (\<exists>i < j. i \<notin> set (S @ [n]) \<and> matched src i j \<and> J ! i = Some j \<and> J ! j = Some i)"
  proof (intro allI impI)
    fix j assume j: "j < Suc n" "src ! j = CHR '']''"
    with assms(1) have "j < n" by (cases "j = n") auto
    with cl j show "unmatched_close src j \<or>
        (\<exists>i < j. i \<notin> set (S @ [n]) \<and> matched src i j \<and> J ! i = Some j \<and> J ! j = Some i)"
      by fastforce
  qed
  ultimately show ?thesis using len by (simp only: jumps_inv_def)
qed

lemma jumps_inv_skip:
  assumes "src ! n \<noteq> CHR ''[''" and "src ! n \<noteq> CHR '']''" and "jumps_inv src n S J"
  shows "jumps_inv src (Suc n) S J"
proof -
  from assms(3) have len: "length J = length src"
    and op: "\<forall>i < n. src ! i = CHR ''['' \<longrightarrow>
        i \<in> set S \<or> (\<exists>j < n. matched src i j \<and> J ! i = Some j \<and> J ! j = Some i)"
    and cl: "\<forall>j < n. src ! j = CHR '']'' \<longrightarrow> unmatched_close src j \<or>
        (\<exists>i < j. i \<notin> set S \<and> matched src i j \<and> J ! i = Some j \<and> J ! j = Some i)"
    by (simp_all add: jumps_inv_def)
  have "\<forall>i < Suc n. src ! i = CHR ''['' \<longrightarrow>
        i \<in> set S \<or> (\<exists>j < Suc n. matched src i j \<and> J ! i = Some j \<and> J ! j = Some i)"
  proof (intro allI impI)
    fix i assume i: "i < Suc n" "src ! i = CHR ''[''"
    with assms(1) have "i < n" by (cases "i = n") auto
    with op i show "i \<in> set S \<or> (\<exists>j < Suc n. matched src i j \<and> J ! i = Some j \<and> J ! j = Some i)"
      using less_Suc_eq by blast
  qed
  moreover have "\<forall>j < Suc n. src ! j = CHR '']'' \<longrightarrow> unmatched_close src j \<or>
        (\<exists>i < j. i \<notin> set S \<and> matched src i j \<and> J ! i = Some j \<and> J ! j = Some i)"
  proof (intro allI impI)
    fix j assume j: "j < Suc n" "src ! j = CHR '']''"
    with assms(2) have "j < n" by (cases "j = n") auto
    with cl j show "unmatched_close src j \<or>
        (\<exists>i < j. i \<notin> set S \<and> matched src i j \<and> J ! i = Some j \<and> J ! j = Some i)"
      by blast
  qed
  ultimately show ?thesis using len by (simp only: jumps_inv_def)
qed

lemma unmatched_close_empty_stack:
  assumes "n < length src" and "src ! n = CHR '']''" and "jumps_inv src n [] J"
  shows "unmatched_close src n"
proof -
  have "\<not> matched src i n" if "i < n" for i
  proof
    assume m: "matched src i n"
    then have "src ! i = CHR ''[''" by (simp add: matched_def)
    with assms(3) that obtain j where "j < n" "matched src i j"
      by (auto simp: jumps_inv_def)
    with matched_close_unique [OF m this(2)] show False by simp
  qed
  with assms(1,2) show ?thesis by (auto simp: unmatched_close_def)
qed

lemma jumps_inv_unmatched:
  assumes "n < length src" and "src ! n = CHR '']''" and "jumps_inv src n [] J"
  shows "jumps_inv src (Suc n) [] J"
proof -
  note un = unmatched_close_empty_stack [OF assms]
  from assms(3) have len: "length J = length src"
    and op: "\<forall>i < n. src ! i = CHR ''['' \<longrightarrow>
        (\<exists>j < n. matched src i j \<and> J ! i = Some j \<and> J ! j = Some i)"
    and cl: "\<forall>j < n. src ! j = CHR '']'' \<longrightarrow> unmatched_close src j \<or>
        (\<exists>i < j. matched src i j \<and> J ! i = Some j \<and> J ! j = Some i)"
    by (simp_all add: jumps_inv_def)
  have "\<forall>i < Suc n. src ! i = CHR ''['' \<longrightarrow>
        i \<in> set [] \<or> (\<exists>j < Suc n. matched src i j \<and> J ! i = Some j \<and> J ! j = Some i)"
  proof (intro allI impI)
    fix i assume i: "i < Suc n" "src ! i = CHR ''[''"
    with assms(2) have "i < n" by (cases "i = n") auto
    with op i show "i \<in> set [] \<or> (\<exists>j < Suc n. matched src i j \<and> J ! i = Some j \<and> J ! j = Some i)"
      using less_Suc_eq by blast
  qed
  moreover have "\<forall>j < Suc n. src ! j = CHR '']'' \<longrightarrow> unmatched_close src j \<or>
        (\<exists>i < j. i \<notin> set [] \<and> matched src i j \<and> J ! i = Some j \<and> J ! j = Some i)"
    using cl un by (auto simp: less_Suc_eq)
  ultimately show ?thesis using len by (simp only: jumps_inv_def)
qed

lemma jumps_inv_pop:
  assumes n: "n < length src" and c: "src ! n = CHR '']''" and ne: "S \<noteq> []"
    and st: "stack_inv src n S" and ji: "jumps_inv src n S J"
  shows "jumps_inv src (Suc n) (butlast S) (J[last S := Some n, n := Some (last S)])"
proof -
  let ?t = "last S"
  let ?J = "J[?t := Some n, n := Some ?t]"
  note m = stack_inv_pop(2) [OF n c ne st]
  note fresh = stack_inv_pop(3) [OF n c ne st]
  from ne have tin: "?t \<in> set S" by simp
  from m have tn: "?t < n" and to: "src ! ?t = CHR ''[''" by (simp_all add: matched_def)
  from ji have len: "length J = length src"
    and op: "\<forall>i < n. src ! i = CHR ''['' \<longrightarrow>
        i \<in> set S \<or> (\<exists>j < n. matched src i j \<and> J ! i = Some j \<and> J ! j = Some i)"
    and cl: "\<forall>j < n. src ! j = CHR '']'' \<longrightarrow> unmatched_close src j \<or>
        (\<exists>i < j. i \<notin> set S \<and> matched src i j \<and> J ! i = Some j \<and> J ! j = Some i)"
    by (simp_all add: jumps_inv_def)
  have Jt: "?J ! ?t = Some n" and Jn: "?J ! n = Some ?t"
    using tn n len by simp_all
  have keep: "?J ! k = J ! k" if "k \<noteq> ?t" "k \<noteq> n" for k
    using that by simp
  have old: "?J ! i = Some j \<and> ?J ! j = Some i"
    if "i \<noteq> ?t" "j < n" "matched src i j" "J ! i = Some j" "J ! j = Some i" for i j
  proof -
    from that(3) have "i < j" "src ! j = CHR '']''" by (simp_all add: matched_def)
    with that(2) to have "i \<noteq> n" "j \<noteq> n" "j \<noteq> ?t" by auto
    with that keep show ?thesis by simp
  qed
  have "\<forall>i < Suc n. src ! i = CHR ''['' \<longrightarrow> i \<in> set (butlast S) \<or>
        (\<exists>j < Suc n. matched src i j \<and> ?J ! i = Some j \<and> ?J ! j = Some i)"
  proof (intro allI impI)
    fix i assume i: "i < Suc n" "src ! i = CHR ''[''"
    with c have iltn: "i < n" by (cases "i = n") auto
    show "i \<in> set (butlast S) \<or>
        (\<exists>j < Suc n. matched src i j \<and> ?J ! i = Some j \<and> ?J ! j = Some i)"
    proof (cases "i = ?t")
      case True
      with m Jt Jn show ?thesis by auto
    next
      case False
      from op iltn i(2) consider "i \<in> set S"
        | j where "j < n" "matched src i j" "J ! i = Some j" "J ! j = Some i" by blast
      then show ?thesis
      proof cases
        case 1
        with False ne have "i \<in> set (butlast S)"
          by (metis append_butlast_last_id in_set_conv_decomp_last rotate1.simps(2) set_ConsD set_rotate1)
        then show ?thesis ..
      next
        case 2
        from old [OF False 2] 2 show ?thesis using less_Suc_eq by blast
      qed
    qed
  qed
  moreover have "\<forall>j < Suc n. src ! j = CHR '']'' \<longrightarrow> unmatched_close src j \<or>
        (\<exists>i < j. i \<notin> set (butlast S) \<and> matched src i j \<and> ?J ! i = Some j \<and> ?J ! j = Some i)"
  proof (intro allI impI)
    fix j assume j: "j < Suc n" "src ! j = CHR '']''"
    show "unmatched_close src j \<or>
        (\<exists>i < j. i \<notin> set (butlast S) \<and> matched src i j \<and> ?J ! i = Some j \<and> ?J ! j = Some i)"
    proof (cases "j = n")
      case True
      with tn fresh m Jt Jn show ?thesis by auto
    next
      case False
      with j have jn: "j < n" by simp
      from cl jn j(2) consider "unmatched_close src j"
        | i where "i < j" "i \<notin> set S" "matched src i j" "J ! i = Some j" "J ! j = Some i"
        by blast
      then show ?thesis
      proof cases
        case 1
        then show ?thesis ..
      next
        case 2
        from 2(2) tin have "i \<noteq> ?t" by auto
        from old [OF this jn 2(3,4,5)] 2 show ?thesis
          by (auto dest: in_set_butlastD)
      qed
    qed
  qed
  ultimately show ?thesis using len by (simp only: jumps_inv_def length_list_update)
qed

lemma close_reports_Suc:
  "close_reports src (Suc n) =
     close_reports src n @ (if unmatched_close src n then [Unbalanced_close (line_of src n)] else [])"
  by (simp add: close_reports_def)

lemma take_Suc_nesting:
  "n < length src \<Longrightarrow>
   nesting 0 (take (Suc n) src) =
     (case nesting 0 (take n src) of None \<Rightarrow> None | Some d \<Rightarrow> nesting d [src ! n])"
  by (simp add: take_Suc_conv_app_nth nesting_append)

lemma report_inv_push:
  assumes "n < length src" and "src ! n = CHR ''[''" and "report_inv src n S ok errs"
  shows "report_inv src (Suc n) (S @ [n]) ok errs"
proof -
  from assms(2) have "\<not> unmatched_close src n" by (simp add: unmatched_close_def)
  with assms show ?thesis
    by (simp add: report_inv_def close_reports_Suc take_Suc_nesting)
qed

lemma report_inv_skip:
  assumes "n < length src" and "src ! n \<noteq> CHR ''[''" and "src ! n \<noteq> CHR '']''"
    and "report_inv src n S ok errs"
  shows "report_inv src (Suc n) S ok errs"
proof -
  from assms(3) have "\<not> unmatched_close src n" by (simp add: unmatched_close_def)
  with assms show ?thesis
    by (simp add: report_inv_def close_reports_Suc take_Suc_nesting)
qed

lemma report_inv_pop:
  assumes "n < length src" and "src ! n = CHR '']''" and "S \<noteq> []"
    and "matched src (last S) n" and "report_inv src n S ok errs"
  shows "report_inv src (Suc n) (butlast S) ok errs"
proof -
  from assms(4) have "last S < n" by (simp add: matched_def)
  with assms(4) have "\<not> unmatched_close src n" by (auto simp: unmatched_close_def)
  with assms show ?thesis
    by (simp add: report_inv_def close_reports_Suc take_Suc_nesting)
qed

lemma report_inv_unmatched:
  assumes "n < length src" and "src ! n = CHR '']''" and "unmatched_close src n"
    and "report_inv src n [] ok errs"
  shows "report_inv src (Suc n) [] False (errs @ [Unbalanced_close (line_of src n)])"
  using assms by (simp add: report_inv_def close_reports_Suc take_Suc_nesting)

lemma scan_byte_open:
  "source g ! i = CHR ''['' \<Longrightarrow>
   scan_byte i (l, g) =
     (l\<lparr>stack := stack l @ [i]\<rparr>, g\<lparr>lines := (lines g)[i := Some (line l)]\<rparr>)"
  by (simp add: scan_byte_def)

lemma scan_byte_close_empty:
  "source g ! i = CHR '']'' \<Longrightarrow> stack l = [] \<Longrightarrow>
   scan_byte i (l, g) =
     (l\<lparr>success := False\<rparr>,
      g\<lparr>lines := (lines g)[i := Some (line l)], stderr := stderr g @ [Unbalanced_close (line l)]\<rparr>)"
  by (simp add: scan_byte_def errorf_def)

lemma scan_byte_close_pop:
  "source g ! i = CHR '']'' \<Longrightarrow> stack l \<noteq> [] \<Longrightarrow>
   scan_byte i (l, g) =
     (l\<lparr>stack := butlast (stack l)\<rparr>,
      g\<lparr>lines := (lines g)[i := Some (line l)],
        jumps := (jumps g)[last (stack l) := Some i, i := Some (last (stack l))]\<rparr>)"
  by (simp add: scan_byte_def Let_def)

lemma scan_byte_other:
  "source g ! i \<noteq> CHR ''['' \<Longrightarrow> source g ! i \<noteq> CHR '']'' \<Longrightarrow>
   scan_byte i (l, g) =
     (l\<lparr>line := line l + (if source g ! i = CHR 0x0A then 1 else 0)\<rparr>,
      g\<lparr>lines := (lines g)[i := Some (line l)]\<rparr>)"
  by (simp add: scan_byte_def)

lemma scan_inv_step:
  assumes inv: "scan_inv g0 n (l, g)" and n: "n < length (source g0)"
  shows "scan_inv g0 (Suc n) (scan_byte n (l, g))"
proof -
  let ?src = "source g0"
  from inv have src: "source g = ?src"
    and fr: "cells g = cells g0" "cellptr g = cellptr g0" "debug g = debug g0"
      "stdin g = stdin g0" "stdout g = stdout g0"
    and si: "stack_inv ?src n (stack l)"
    and ji: "jumps_inv ?src n (stack l) (jumps g)"
    and li: "lines_inv ?src n (lines g) (line l)"
    by (simp_all add: scan_inv_def)
  from inv obtain errs where errs: "stderr g = stderr g0 @ errs"
    and ri: "report_inv ?src n (stack l) (success l) errs"
    by (auto simp: scan_inv_def)
  note li' = lines_inv_step [OF n li]
  from li have ln: "line l = line_of ?src n" by (simp add: lines_inv_def)
  from n have n': "Suc n \<le> length ?src" by simp
  consider (op) "?src ! n = CHR ''[''"
    | (ce) "?src ! n = CHR '']''" "stack l = []"
    | (cp) "?src ! n = CHR '']''" "stack l \<noteq> []"
    | (ot) "?src ! n \<noteq> CHR ''[''" "?src ! n \<noteq> CHR '']''" by blast
  then show ?thesis
  proof cases
    case op
    from op li' have l2: "lines_inv ?src (Suc n) ((lines g)[n := Some (line l)]) (line l)" by simp
    from stack_inv_push [OF n op si] jumps_inv_push [OF op ji] report_inv_push [OF n op ri]
      l2 errs src fr n' op show ?thesis
      by (simp add: scan_byte_open scan_inv_def)
  next
    case ce
    from ce li' have l2: "lines_inv ?src (Suc n) ((lines g)[n := Some (line l)]) (line l)" by simp
    from ji ce have ji0: "jumps_inv ?src n [] (jumps g)" by simp
    note un = unmatched_close_empty_stack [OF n ce(1) ji0]
    from ri ce have "report_inv ?src n [] (success l) errs" by simp
    from report_inv_unmatched [OF n ce(1) un this] jumps_inv_unmatched [OF n ce(1) ji0]
      l2 errs src fr n' ce ln show ?thesis
      by (simp add: scan_byte_close_empty scan_inv_def stack_inv_empty)
  next
    case cp
    from cp li' have l2: "lines_inv ?src (Suc n) ((lines g)[n := Some (line l)]) (line l)" by simp
    note sp = stack_inv_pop [OF n cp si]
    from sp(1) jumps_inv_pop [OF n cp si ji] report_inv_pop [OF n cp sp(2) ri]
      l2 errs src fr n' cp show ?thesis
      by (simp add: scan_byte_close_pop scan_inv_def)
  next
    case ot
    from stack_inv_skip [OF n ot si] jumps_inv_skip [OF ot ji] report_inv_skip [OF n ot ri]
      li' errs src fr n' ot show ?thesis
      by (simp add: scan_byte_other scan_inv_def)
  qed
qed

lemma scan_inv_source: "scan_inv g0 n (l, g) \<Longrightarrow> source g = source g0"
  by (simp add: scan_inv_def)

lemma prepare_scan_inv:
  "scan_inv g0 n (l, g) \<Longrightarrow>
   scan_inv g0 (length (source g0)) (prepare_scan n (l, g))"
proof (induction n "(l, g)" arbitrary: l g rule: prepare_scan.induct)
  case (1 i l g)
  note src = scan_inv_source [OF "1.prems"]
  show ?case
  proof (cases "i < source_size g")
    case True
    with src have i: "i < length (source g0)" by (simp add: source_size_def)
    obtain l' g' where sb: "scan_byte i (l, g) = (l', g')" by (cases "scan_byte i (l, g)")
    from scan_inv_step [OF "1.prems" i] sb have "scan_inv g0 (Suc i) (l', g')" by simp
    from "1.hyps" [OF True sb this] True sb show ?thesis by simp
  next
    case False
    from "1.prems" have "i \<le> length (source g0)" by (simp add: scan_inv_def)
    with False src have "i = length (source g0)" by (simp add: source_size_def)
    with False "1.prems" show ?thesis by simp
  qed
qed

subsection \<open>What \<^verbatim>\<open>prepare\<close> returns\<close>

lemma scan_inv_init:
  "scan_inv (g\<lparr>lines := replicate (source_size g) None, jumps := replicate (source_size g) None\<rparr>) 0
     (\<lparr>success = True, stack = [], line = 1\<rparr>,
      g\<lparr>lines := replicate (source_size g) None, jumps := replicate (source_size g) None\<rparr>)"
  by (simp add: scan_inv_def stack_inv_def jumps_inv_def lines_inv_def report_inv_def
      close_reports_def line_of_def source_size_def)

lemma report_stack_result:
  "\<forall>s \<in> set S. array_read (lines g) s = Inr (f s) \<Longrightarrow>
   report_stack S (ok, g) =
     Inr (ok \<and> S = [], g\<lparr>stderr := stderr g @ map (\<lambda>s. Unbalanced_open (f s)) S\<rparr>)"
proof (induction S arbitrary: ok g)
  case Nil
  then show ?case by simp
next
  case (Cons s S)
  let ?g = "errorf (Unbalanced_open (f s)) g"
  from Cons.prems have "\<forall>s \<in> set S. array_read (lines ?g) s = Inr (f s)"
    by (simp add: errorf_def)
  from Cons.IH [OF this, of False] Cons.prems show ?case
    by (simp add: errorf_def)
qed

lemma final_stack:
  assumes si: "stack_inv src (length src) S" and ji: "jumps_inv src (length src) S J"
  shows "S = filter (unmatched_open src) [0..<length src]"
proof -
  let ?n = "length src"
  from si have so: "sorted_wrt (<) S" and el: "\<forall>s \<in> set S. s < ?n \<and> src ! s = CHR ''[''"
    by (simp_all add: stack_inv_def)
  from ji have op: "\<forall>i < ?n. src ! i = CHR ''['' \<longrightarrow>
        i \<in> set S \<or> (\<exists>j < ?n. matched src i j \<and> J ! i = Some j \<and> J ! j = Some i)"
    and cl: "\<forall>j < ?n. src ! j = CHR '']'' \<longrightarrow> unmatched_close src j \<or>
        (\<exists>i < j. i \<notin> set S \<and> matched src i j \<and> J ! i = Some j \<and> J ! j = Some i)"
    by (simp_all add: jumps_inv_def)
  have "set S = set (filter (unmatched_open src) [0..<?n])"
  proof (intro set_eqI iffI)
    fix i assume i: "i \<in> set S"
    have "\<not> matched src i j" if "j < ?n" for j
    proof
      assume m: "matched src i j"
      then have c: "src ! j = CHR '']''" and ij: "i < j" by (simp_all add: matched_def)
      from ij m have "\<not> unmatched_close src j" by (auto simp: unmatched_close_def)
      with cl that c obtain i' where "i' \<notin> set S" "matched src i' j" by blast
      with matched_open_unique [OF m this(2)] i show False by simp
    qed
    with el i show "i \<in> set (filter (unmatched_open src) [0..<?n])"
      by (auto simp: unmatched_open_def)
  next
    fix i assume "i \<in> set (filter (unmatched_open src) [0..<?n])"
    then have i: "i < ?n" "src ! i = CHR ''[''" and no: "\<forall>j < ?n. \<not> matched src i j"
      by (auto simp: unmatched_open_def)
    with op show "i \<in> set S" by blast
  qed
  moreover from so have "sorted S" "distinct S" by (simp_all add: strict_sorted_iff)
  moreover have "sorted (filter (unmatched_open src) [0..<?n])"
    "distinct (filter (unmatched_open src) [0..<?n])" by (simp_all add: sorted_wrt_filter)
  ultimately show ?thesis by (intro sorted_distinct_set_unique)
qed

lemma prepare_prepared:
  "(\<exists>g'. prepare g = Inr (balanced (source g), g') \<and> prepared g g') \<and>
   balanced (source g) =
     (close_reports (source g) (length (source g)) = [] \<and> open_reports (source g) = [])"
proof -
  let ?src = "source g"
  let ?n = "length ?src"
  let ?g0 = "g\<lparr>lines := replicate (source_size g) None, jumps := replicate (source_size g) None\<rparr>"
  obtain l g1 where ps: "prepare_scan 0 (\<lparr>success = True, stack = [], line = 1\<rparr>, ?g0) = (l, g1)"
    by (cases "prepare_scan 0 (\<lparr>success = True, stack = [], line = 1\<rparr>, ?g0)")
  from prepare_scan_inv [OF scan_inv_init, of g] ps have inv: "scan_inv ?g0 ?n (l, g1)" by simp
  then have fr: "cells g1 = cells g" "cellptr g1 = cellptr g" "debug g1 = debug g"
      "source g1 = ?src" "stdin g1 = stdin g" "stdout g1 = stdout g"
    and si: "stack_inv ?src ?n (stack l)"
    and ji: "jumps_inv ?src ?n (stack l) (jumps g1)"
    and li: "lines_inv ?src ?n (lines g1) (line l)"
    by (simp_all add: scan_inv_def)
  from inv obtain errs where errs: "stderr g1 = stderr g @ errs"
    and ri: "report_inv ?src ?n (stack l) (success l) errs"
    by (auto simp: scan_inv_def)
  note S = final_stack [OF si ji]
  from li have ll: "length (lines g1) = ?n" and lk: "\<forall>k < ?n. lines g1 ! k = Some (line_of ?src k)"
    by (simp_all add: lines_inv_def)
  then have lines: "lines g1 = map (\<lambda>i. Some (line_of ?src i)) [0..<?n]"
    by (intro nth_equalityI) simp_all
  from si have "\<forall>s \<in> set (stack l). s < ?n" by (simp add: stack_inv_def)
  with ll lk have rd: "\<forall>s \<in> set (stack l). array_read (lines g1) s = Inr (line_of ?src s)"
    by (simp add: array_read_def)
  let ?g' = "g1\<lparr>stderr := stderr g1 @ map (\<lambda>s. Unbalanced_open (line_of ?src s)) (stack l)\<rparr>"
  from report_stack_result [OF rd] ps
  have pr: "prepare g = Inr (success l \<and> stack l = [], ?g')"
    by (simp add: prepare_def)
  from ri have "nesting 0 ?src = (if success l then Some (length (stack l)) else None)"
    and e: "errs = close_reports ?src ?n"
    by (simp_all add: report_inv_def)
  then have ok: "(success l \<and> stack l = []) = balanced ?src"
    by (auto simp: balanced_nesting)
  from ri have "success l = (close_reports ?src ?n = [])" by (simp add: report_inv_def)
  moreover from S have "(stack l = []) = (open_reports ?src = [])"
    by (simp add: open_reports_def)
  ultimately have ok': "(success l \<and> stack l = []) =
    (close_reports ?src ?n = [] \<and> open_reports ?src = [])" by simp
  have "prepared g ?g'"
    using fr lines errs e ji S by (simp add: prepared_def open_reports_def)
  with pr ok ok' show ?thesis by auto
qed

lemma balanced_no_reports:
  "balanced src \<longleftrightarrow> close_reports src (length src) = [] \<and> open_reports src = []"
  using prepare_prepared [of "initial_globals src False []"]
  by (simp add: initial_globals_def)

subsection \<open>Single iterations and runs of \<^verbatim>\<open>execute\<close>\<close>

lemma step_plus:
  "pc < source_size g \<Longrightarrow> source g ! pc = CHR ''+'' \<Longrightarrow>
   step (Running pc g) =
     Running (size_add pc 1) (g\<lparr>cells := (cells g)[cellptr g := cells g ! cellptr g + 1]\<rparr>)"
  by (simp add: execute_switch_def)

lemma step_minus:
  "pc < source_size g \<Longrightarrow> source g ! pc = CHR ''-'' \<Longrightarrow>
   step (Running pc g) =
     Running (size_add pc 1) (g\<lparr>cells := (cells g)[cellptr g := cells g ! cellptr g - 1]\<rparr>)"
  by (simp add: execute_switch_def)

lemma run_plus:
  "pc + k \<le> source_size g \<Longrightarrow> source_size g \<le> SIZE_MAX \<Longrightarrow>
   \<forall>i<k. source g ! (pc + i) = CHR ''+'' \<Longrightarrow>
   run k (Running pc g) =
     Running (pc + k) (g\<lparr>cells := (cells g)[cellptr g := cells g ! cellptr g + of_nat k]\<rparr>)"
proof (induction k arbitrary: pc g)
  case 0
  then show ?case by simp
next
  case (Suc k)
  let ?g = "g\<lparr>cells := (cells g)[cellptr g := cells g ! cellptr g + 1]\<rparr>"
  from Suc.prems have pc: "pc < source_size g" and c: "source g ! pc = CHR ''+''" by auto
  from Suc.prems have s: "size_add pc 1 = Suc pc" by (simp add: size_add_small)
  have st: "step (Running pc g) = Running (Suc pc) ?g"
    using step_plus [OF pc c] s by simp
  have "\<forall>i<k. source ?g ! (Suc pc + i) = CHR ''+''"
    using Suc.prems(3) by (auto dest: spec [where x = "Suc i" for i])
  with Suc.prems have "run k (Running (Suc pc) ?g) =
     Running (Suc pc + k) (?g\<lparr>cells := (cells ?g)[cellptr ?g := cells ?g ! cellptr ?g + of_nat k]\<rparr>)"
    by (intro Suc.IH) (simp_all add: source_size_def)
  with st show ?case
    by (cases "cellptr g < length (cells g)")
       (simp_all del: step.simps add: ac_simps list_update_beyond)
qed

lemma dump_rows_fields:
  assumes "dump_rows i e g = Inr g'"
  shows "cells g' = cells g \<and> cellptr g' = cellptr g \<and> debug g' = debug g
     \<and> source g' = source g \<and> lines g' = lines g \<and> jumps g' = jumps g
     \<and> stdin g' = stdin g \<and> stderr g' = stderr g"
proof -
  from dump_rows_frame [OF assms] obtain out where "g' = g\<lparr>stdout := out\<rparr>" ..
  then show ?thesis by simp
qed

lemma dump_fields:
  assumes "dump g = Inr g'"
  shows "cells g' = cells g \<and> cellptr g' = cellptr g \<and> debug g' = debug g
     \<and> source g' = source g \<and> lines g' = lines g \<and> jumps g' = jumps g
     \<and> stdin g' = stdin g \<and> stderr g' = stderr g"
  using dump_rows_fields [of _ _ "g\<lparr>stdout := stdout g @ [Dump_header]\<rparr>" g'] assms
  by (simp add: dump_def Let_def)

lemma execute_switch_frame:
  assumes "execute_switch pc g = Proceed pc' g' \<or> execute_switch pc g = Return_false g'"
  shows "source g' = source g \<and> lines g' = lines g \<and> jumps g' = jumps g
     \<and> debug g' = debug g \<and> length (cells g') = length (cells g)
     \<and> (\<forall>i. i \<noteq> cellptr g \<longrightarrow> cells g' ! i = cells g ! i)"
  using assms
  by (auto simp: execute_switch_def errorf_def Let_def
      split: if_splits sum.splits list.splits dest!: dump_fields)

lemma step_cases:
  assumes "step (Running pc g) = Running pc' g' \<or> step (Running pc g) = Returned b g'"
  shows "(\<exists>q. execute_switch pc g = Proceed q g') \<or> execute_switch pc g = Return_false g' \<or> g' = g"
  using assms by (auto split: if_splits flow.splits)

lemma step_fields:
  assumes "step (Running pc g) = Running pc' g' \<or> step (Running pc g) = Returned b g'"
  shows "source g' = source g \<and> lines g' = lines g \<and> jumps g' = jumps g
     \<and> length (cells g') = length (cells g)
     \<and> (\<forall>i. i \<noteq> cellptr g \<longrightarrow> cells g' ! i = cells g ! i)"
  using step_cases [OF assms] execute_switch_frame [of pc g _ g'] by auto

lemma execute_switch_cellptr:
  assumes "cellptr g < CELL_COUNT"
    and "execute_switch pc g = Proceed pc' g' \<or> execute_switch pc g = Return_false g'"
  shows "cellptr g' < CELL_COUNT"
proof -
  have le: "CELL_COUNT \<le> SIZE_MAX" by (simp add: CELL_COUNT_def SIZE_MAX_def)
  have up: "cellptr g \<noteq> CELL_COUNT - 1 \<Longrightarrow> size_add (cellptr g) 1 < CELL_COUNT"
    using assms(1) le by (subst size_add_small) auto
  have down: "size_sub (cellptr g) 1 < CELL_COUNT" if "cellptr g \<noteq> 0"
    using assms(1) le that by (subst size_sub_small) auto
  from assms(2) show ?thesis
    using assms(1) up down
    by (auto simp: execute_switch_def errorf_def Let_def
      split: if_splits sum.splits list.splits dest!: dump_fields)
qed

lemma step_cellptr:
  assumes "cellptr g < CELL_COUNT"
    and "step (Running pc g) = Running pc' g' \<or> step (Running pc g) = Returned b g'"
  shows "cellptr g' < CELL_COUNT"
  using step_cases [OF assms(2)] execute_switch_cellptr [OF assms(1), of pc _ g'] assms(1)
  by auto

lemma run_cellptr:
  "cellptr g < CELL_COUNT \<Longrightarrow>
   run n (Running pc g) = Running pc' g' \<or> run n (Running pc g) = Returned b g' \<Longrightarrow>
   cellptr g' < CELL_COUNT"
proof (induction n arbitrary: pc g)
  case 0
  then show ?case by auto
next
  case (Suc n)
  show ?case
  proof (cases "step (Running pc g)")
    case (Running q h)
    with Suc.prems(1) have "cellptr h < CELL_COUNT" using step_cellptr by blast
    from Suc.IH [OF this] Suc.prems(2) Running show ?thesis by simp
  next
    case (Returned c h)
    with Suc.prems(1) have "cellptr h < CELL_COUNT" using step_cellptr by blast
    with Suc.prems(2) Returned show ?thesis by (simp add: run_Returned)
  next
    case (Crashed f)
    with Suc.prems(2) show ?thesis by (simp add: run_Crashed)
  qed
qed

lemma run_invariant:
  assumes pres: "\<And>pc g pc' g' b. P g \<Longrightarrow>
      step (Running pc g) = Running pc' g' \<or> step (Running pc g) = Returned b g' \<Longrightarrow> P g'"
    and "P g"
    and "run n (Running pc g) = Running pc' g' \<or> run n (Running pc g) = Returned b g'"
  shows "P g'"
  using assms(2,3)
proof (induction n arbitrary: pc g)
  case 0
  then show ?case by auto
next
  case (Suc n)
  show ?case
  proof (cases "step (Running pc g)")
    case (Running q h)
    with Suc.prems(1) have "P h" using pres by blast
    from Suc.IH [OF this] Suc.prems(2) Running show ?thesis by simp
  next
    case (Returned c h)
    with Suc.prems(1) have "P h" using pres by blast
    with Suc.prems(2) Returned show ?thesis by (simp add: run_Returned)
  next
    case (Crashed f)
    with Suc.prems(2) show ?thesis by (simp add: run_Crashed)
  qed
qed

lemma run_frame:
  assumes "run n (Running pc g) = Running pc' g' \<or> run n (Running pc g) = Returned b g'"
  shows "source g' = source g \<and> lines g' = lines g \<and> jumps g' = jumps g
     \<and> length (cells g') = length (cells g)"
proof -
  let ?P = "\<lambda>h. source h = source g \<and> lines h = lines g \<and> jumps h = jumps g
     \<and> length (cells h) = length (cells g)"
  have "?P g'"
  proof (rule run_invariant [where P = ?P, OF _ _ assms])
    fix pc h pc' h' b
    assume "?P h" "step (Running pc h) = Running pc' h' \<or> step (Running pc h) = Returned b h'"
    with step_fields [OF this(2)] show "?P h'" by simp
  qed simp
  then show ?thesis .
qed

lemma run_Suc_end: "run (Suc n) c = step (run n c)"
  using run_add [of n 1 c] by simp

lemma bfi_Running:
  assumes "bfi n src dbg inp = Running pc g"
  shows "balanced src" and "source g = src"
    and "lines g = map (\<lambda>i. Some (line_of src i)) [0..<length src]"
    and "jumps_inv src (length src) [] (jumps g)"
    and "length (cells g) = CELL_COUNT" and "cellptr g < CELL_COUNT"
    and "bfi (n + m) src dbg inp = run m (Running pc g)"
proof -
  let ?g = "initial_globals src dbg inp"
  have src: "source ?g = src" by (simp add: initial_globals_def)
  from prepare_prepared [of ?g] obtain g0 where
    p: "prepare ?g = Inr (balanced src, g0)" and pd: "prepared ?g g0"
    and nb: "balanced src = (close_reports src (length src) = [] \<and> open_reports src = [])"
    unfolding src by blast
  from assms p show b: "balanced src"
    by (auto simp: bfi_def split: if_splits)
  with assms p have r: "run n (Running 0 g0) = Running pc g"
    by (simp add: bfi_def execute_def)
  with b p show "bfi (n + m) src dbg inp = run m (Running pc g)"
    by (simp add: bfi_def execute_def run_add)
  from r have fr: "source g = source g0 \<and> lines g = lines g0 \<and> jumps g = jumps g0
     \<and> length (cells g) = length (cells g0)"
    using run_frame by blast
  from pd src fr show "source g = src"
    and "lines g = map (\<lambda>i. Some (line_of src i)) [0..<length src]"
    by (simp_all add: prepared_def)
  from pd fr show "length (cells g) = CELL_COUNT"
    by (simp add: prepared_def initial_globals_def)
  from b nb have "filter (unmatched_open src) [0..<length src] = []"
    by (simp add: open_reports_def)
  with pd src fr show "jumps_inv src (length src) [] (jumps g)"
    by (simp add: prepared_def)
  from pd have "cellptr g0 < CELL_COUNT"
    by (simp add: prepared_def initial_globals_def CELL_COUNT_def)
  from run_cellptr [OF this] r show "cellptr g < CELL_COUNT" by blast
qed

lemma bfi_Returned:
  assumes "bfi n src dbg inp = Returned b g"
  shows "cellptr g < CELL_COUNT"
proof -
  let ?g = "initial_globals src dbg inp"
  have src: "source ?g = src" by (simp add: initial_globals_def)
  from prepare_prepared [of ?g] obtain g0 where
    p: "prepare ?g = Inr (balanced src, g0)" and pd: "prepared ?g g0"
    unfolding src by blast
  from pd have c0: "cellptr g0 < CELL_COUNT"
    by (simp add: prepared_def initial_globals_def CELL_COUNT_def)
  show ?thesis
  proof (cases "balanced src")
    case True
    with assms p have "run n (Running 0 g0) = Returned b g"
      by (simp add: bfi_def execute_def)
    with run_cellptr [OF c0] show ?thesis by blast
  next
    case False
    with assms p c0 show ?thesis by (simp add: bfi_def)
  qed
qed

lemma matched_jump:
  assumes "jumps_inv src (length src) [] J" and "matched src i j"
  shows "J ! i = Some j" and "J ! j = Some i" and "i < length J" and "j < length J"
proof -
  from assms(2) have i: "i < j" "j < length src" "src ! i = CHR ''[''" "src ! j = CHR '']''"
    by (simp_all add: matched_def)
  from assms(2) i have "\<not> unmatched_close src j" by (auto simp: unmatched_close_def)
  with assms(1) i obtain i' where "matched src i' j" "J ! i' = Some j" "J ! j = Some i'"
    by (auto simp: jumps_inv_def)
  with matched_open_unique [OF assms(2) this(1)] show "J ! i = Some j" "J ! j = Some i"
    by simp_all
  from assms(1) i show "i < length J" "j < length J" by (simp_all add: jumps_inv_def)
qed

lemma run_right:
  "pc + k \<le> source_size g \<Longrightarrow> source_size g \<le> SIZE_MAX \<Longrightarrow> cellptr g + k < CELL_COUNT \<Longrightarrow>
   \<forall>i<k. source g ! (pc + i) = CHR ''>'' \<Longrightarrow>
   run k (Running pc g) = Running (pc + k) (g\<lparr>cellptr := cellptr g + k\<rparr>)"
proof (induction k arbitrary: pc g)
  case 0
  then show ?case by simp
next
  case (Suc k)
  let ?g = "g\<lparr>cellptr := Suc (cellptr g)\<rparr>"
  from Suc.prems have pc: "pc < source_size g" and c: "source g ! pc = CHR ''>''" by auto
  from Suc.prems have s: "size_add pc 1 = Suc pc" by (simp add: size_add_small)
  from Suc.prems have s': "size_add (cellptr g) 1 = Suc (cellptr g)"
    by (simp add: size_add_small CELL_COUNT_def SIZE_MAX_def)
  from Suc.prems have nl: "cellptr g \<noteq> CELL_COUNT - 1" by simp
  have st: "step (Running pc g) = Running (Suc pc) ?g"
    using pc c s s' nl by (simp add: execute_switch_def)
  have "\<forall>i<k. source ?g ! (Suc pc + i) = CHR ''>''"
    using Suc.prems(4) by (auto dest: spec [where x = "Suc i" for i])
  with Suc.prems have "run k (Running (Suc pc) ?g) =
     Running (Suc pc + k) (?g\<lparr>cellptr := cellptr ?g + k\<rparr>)"
    by (intro Suc.IH) (simp_all add: source_size_def)
  with st show ?case by (simp del: step.simps)
qed

subsection \<open>Runs of the whole interpreter\<close>

lemma bfi_Suc:
  assumes "bfi n src dbg inp = Running pc g"
  shows "bfi (Suc n) src dbg inp = step (Running pc g)"
  using bfi_Running(7) [OF assms, of 1] by simp

lemma bfi_stays_Returned:
  assumes "bfi n src dbg inp = Running pc g" and "step (Running pc g) = Returned b g'"
  shows "bfi (n + Suc k) src dbg inp = Returned b g'"
  using bfi_Running(7) [OF assms(1), of "Suc k"] assms(2)
  by (simp del: step.simps add: run_Returned)

text \<open>
  Evaluation of the interpreter on concrete programs, and programs that start with a run of
  move-right bytes.
\<close>

lemmas bfi_eval = bfi_def prepare_def initial_globals_def source_size_def scan_byte_def
  errorf_def array_read_def execute_def execute_switch_def size_add_def size_sub_def
  SIZE_MAX_def CELL_COUNT_def Let_def

lemma matched_eval:
  "matched src i j \<longleftrightarrow>
     i < j \<and> j < length src \<and> src ! i = CHR ''['' \<and> src ! j = CHR '']'' \<and>
     nesting 0 (take (j - Suc i) (drop (Suc i) src)) = Some 0"
  by (simp add: matched_def balanced_nesting between_def)

lemma prepare_empty_loop: "prepare (initial_globals ''[]'' False []) = Inr (True, empty_loop)"
  by (simp add: prepare_def initial_globals_def source_size_def scan_byte_def errorf_def
      empty_loop_def array_read_def Let_def)

lemma matched_empty_loop: "matched ''[]'' 0 1"
  by (simp add: matched_def between_def balanced_def)

lemma bfi_empty_loop:
  "bfi 0 ''[]'' False [] = Running 0 empty_loop"
  "bfi 1 ''[]'' False [] = Running 2 empty_loop"
  "bfi 2 ''[]'' False [] = Returned True empty_loop"
  "cells empty_loop ! cellptr empty_loop = 0"
proof -
  show 0: "bfi 0 ''[]'' False [] = Running 0 empty_loop"
    by (simp add: bfi_def prepare_empty_loop execute_def)
  show c: "cells empty_loop ! cellptr empty_loop = 0"
    by (simp add: empty_loop_def initial_globals_def CELL_COUNT_def)
  have s: "step (Running 0 empty_loop) = Running 2 empty_loop"
    using c by (simp add: execute_switch_def empty_loop_def initial_globals_def source_size_def
        array_read_def size_add_def SIZE_MAX_def)
  show 1: "bfi 1 ''[]'' False [] = Running 2 empty_loop"
    using bfi_Suc [OF 0] s by (simp del: step.simps)
  have "step (Running 2 empty_loop) = Returned True empty_loop"
    by (simp add: empty_loop_def initial_globals_def source_size_def)
  with bfi_Suc [OF 1] show "bfi 2 ''[]'' False [] = Returned True empty_loop"
    by (simp del: step.simps add: numeral_2_eq_2)
qed

lemma nesting_no_brackets:
  "CHR ''['' \<notin> set xs \<Longrightarrow> CHR '']'' \<notin> set xs \<Longrightarrow> nesting d xs = Some d"
  by (induction xs) auto

lemma count_list_replicate_other: "c \<noteq> d \<Longrightarrow> count_list (replicate n c) d = 0"
  by (induction n) simp_all

lemma balanced_moves_right:
  assumes "CHR ''['' \<notin> set rest" and "CHR '']'' \<notin> set rest"
  shows "balanced (replicate k (CHR ''>'') @ rest)"
  using assms by (simp add: balanced_nesting nesting_append nesting_no_brackets)

lemma bfi_moves_right:
  assumes "k < CELL_COUNT" and "length (replicate k (CHR ''>'') @ rest) \<le> SIZE_MAX"
    and "balanced (replicate k (CHR ''>'') @ rest)"
  shows "\<exists>g. bfi k (replicate k (CHR ''>'') @ rest) dbg inp = Running k g \<and> cellptr g = k
     \<and> debug g = dbg \<and> stderr g = []"
proof -
  let ?src = "replicate k (CHR ''>'') @ rest"
  let ?ini = "initial_globals ?src dbg inp"
  have src: "source ?ini = ?src" by (simp add: initial_globals_def)
  from prepare_prepared [of ?ini] assms(3) obtain p where
    p: "prepare ?ini = Inr (True, p)" and pd: "prepared ?ini p"
    and nr: "close_reports ?src (length ?src) = []" "open_reports ?src = []"
    unfolding src by auto
  from pd nr src have f: "source p = ?src" "cellptr p = 0" "debug p = dbg" "stderr p = []"
    by (simp_all add: prepared_def initial_globals_def)
  have "run k (Running 0 p) = Running (0 + k) (p\<lparr>cellptr := cellptr p + k\<rparr>)"
    using assms(1,2) f by (intro run_right) (simp_all add: source_size_def nth_append)
  with p f show ?thesis by (simp add: bfi_def execute_def)
qed

lemma dump_rows_overrun:
  "i \<le> CELL_COUNT \<Longrightarrow> CELL_COUNT < e \<Longrightarrow> dump_rows i e g = Inl (Out_of_bounds_read CELL_COUNT)"
proof (induction i e g rule: dump_rows.induct)
  case (1 i e g)
  show ?case
  proof (cases "i < CELL_COUNT")
    case True
    with "1.prems" have "i < e" "Suc i \<le> CELL_COUNT" by simp_all
    with "1.IH" [OF this(1) True this(2) "1.prems"(2)] True show ?thesis by simp
  next
    case False
    with "1.prems" have "i = CELL_COUNT" by simp
    with "1.prems" show ?thesis by simp
  qed
qed

text \<open>
  The table of \<^verbatim>\<open>#\<close>: its ten rows are all on the tape when the tape pointer is at most
  \<open>CELL_COUNT - 8\<close>, and the loop reads \<^verbatim>\<open>cells[CELL_COUNT]\<close> for every other pointer
  position.
\<close>

lemma dump_rows_in_bounds:
  "i \<le> e \<Longrightarrow> e \<le> CELL_COUNT \<Longrightarrow>
   dump_rows i e g =
     Inr (g\<lparr>stdout := stdout g @ map (\<lambda>k. Dump_row k (cells g ! k) (k = cellptr g)) [i..<e]\<rparr>)"
proof (induction i e g rule: dump_rows.induct)
  case (1 i e g)
  show ?case
  proof (cases "i < e")
    case True
    with "1.prems" have inb: "i < CELL_COUNT" and le: "Suc i \<le> e" by simp_all
    from "1.IH" [OF True inb le "1.prems"(2)] True inb show ?thesis
      by (simp add: upt_conv_Cons)
  next
    case False
    with "1.prems" show ?thesis by simp
  qed
qed

lemma dump_in_bounds:
  assumes "cellptr g + 8 \<le> CELL_COUNT"
  shows "dump g =
     Inr (g\<lparr>stdout := stdout g @ Dump_header #
            map (\<lambda>k. Dump_row k (cells g ! k) (k = cellptr g))
              [cellptr g - 2..<cellptr g - 2 + 10]\<rparr>)"
proof -
  have b: "(if cellptr g < 2 then 0 else size_sub (cellptr g) 2) = cellptr g - 2"
    using assms by (simp add: size_sub_small CELL_COUNT_def SIZE_MAX_def)
  have e: "size_add (cellptr g - 2) 10 = cellptr g - 2 + 10"
    using assms by (simp add: size_add_small CELL_COUNT_def SIZE_MAX_def)
  have "cellptr g - 2 + 10 \<le> CELL_COUNT" using assms by (simp add: CELL_COUNT_def)
  from dump_rows_in_bounds [OF _ this, of "cellptr g - 2" "g\<lparr>stdout := stdout g @ [Dump_header]\<rparr>"]
  show ?thesis unfolding dump_def Let_def b e by simp
qed

lemma dump_overrun:
  assumes "cellptr g < CELL_COUNT" and "CELL_COUNT < cellptr g + 8"
  shows "dump g = Inl (Out_of_bounds_read CELL_COUNT)"
proof -
  have b: "(if cellptr g < 2 then 0 else size_sub (cellptr g) 2) = cellptr g - 2"
    using assms by (simp add: size_sub_small CELL_COUNT_def SIZE_MAX_def)
  have e: "size_add (cellptr g - 2) 10 = cellptr g - 2 + 10"
    using assms by (simp add: size_add_small CELL_COUNT_def SIZE_MAX_def)
  have "cellptr g - 2 \<le> CELL_COUNT" "CELL_COUNT < cellptr g - 2 + 10"
    using assms by (simp_all add: CELL_COUNT_def)
  from dump_rows_overrun [OF this] show ?thesis unfolding dump_def Let_def b e .
qed

text \<open>
  A loop that opens at offset 0. Partner pairs do not cross. In a run of the interpreter
  the tape is zero when offset 0 is processed, so such a loop is skipped at once, and no
  later iteration is at an offset up to its loop-close.
\<close>

lemma matched_no_crossing:
  assumes ab: "matched src a b" and cd: "matched src c d"
    and "a < c" and "c < b" and "b < d"
  shows False
proof -
  from ab assms(3,4) have s1: "between src a b = between src a c @ src ! c # between src c b"
    by (intro between_split) (auto simp: matched_def)
  from cd assms(4,5) have s2: "between src c d = between src c b @ src ! b # between src b d"
    by (intro between_split) (auto simp: matched_def)
  from ab cd have br: "src ! c = CHR ''[''" "src ! b = CHR '']''" by (simp_all add: matched_def)
  from matched_nesting [OF cd] s2 br obtain e where e: "nesting 0 (between src c b) = Some e"
    by (cases "nesting 0 (between src c b)") (simp_all add: nesting_append)
  show False
  proof (cases "nesting 0 (between src a c)")
    case None
    with matched_nesting [OF ab] s1 show False by (simp add: nesting_append)
  next
    case (Some k)
    from nesting_shift [OF e, of "Suc k"] have "nesting (Suc k) (between src c b) = Some (e + Suc k)"
      by simp
    with matched_nesting [OF ab] s1 br Some show False by (simp add: nesting_append)
  qed
qed

lemma run_config_invariant:
  assumes pres: "\<And>pc g pc' g'. P pc g \<Longrightarrow> step (Running pc g) = Running pc' g' \<Longrightarrow> P pc' g'"
    and "P pc g" and "run n (Running pc g) = Running pc' g'"
  shows "P pc' g'"
  using assms(2,3)
proof (induction n arbitrary: pc g)
  case 0
  then show ?case by simp
next
  case (Suc n)
  show ?case
  proof (cases "step (Running pc g)")
    case (Running q h)
    with Suc.prems(1) have "P q h" using pres by blast
    from Suc.IH [OF this] Suc.prems(2) Running show ?thesis by simp
  next
    case (Returned c h)
    with Suc.prems(2) show ?thesis by (simp add: run_Returned)
  next
    case (Crashed f)
    with Suc.prems(2) show ?thesis by (simp add: run_Crashed)
  qed
qed

lemma step_stays_past:
  assumes ji: "jumps_inv src (length src) [] (jumps g)" and s: "source g = src"
    and bal: "balanced src"
    and le: "length src \<le> SIZE_MAX" and m: "matched src 0 j" and q: "j < q"
    and st: "step (Running q g) = Running q' g'"
  shows "j < q'"
proof -
  from st have ql: "q < length src" using s by (auto simp: source_size_def split: if_splits)
  with le have inc: "size_add q 1 = Suc q" by (simp add: size_add_small)
  from ji have len: "length (jumps g) = length src" by (simp add: jumps_inv_def)
  from bal have "close_reports src (length src) = []" by (simp add: balanced_no_reports)
  then have nu: "\<forall>k < length src. \<not> unmatched_close src k"
    by (simp add: close_reports_def filter_empty_conv)
  from ji have ncl: "\<forall>k < length src. src ! k = CHR '']'' \<longrightarrow> unmatched_close src k \<or>
        (\<exists>i < k. matched src i k \<and> jumps g ! i = Some k \<and> jumps g ! k = Some i)"
    and nop: "\<forall>i < length src. src ! i = CHR ''['' \<longrightarrow>
        (\<exists>k < length src. matched src i k \<and> jumps g ! i = Some k \<and> jumps g ! k = Some i)"
    by (simp_all add: jumps_inv_def)
  consider (op) "src ! q = CHR ''[''" | (cl) "src ! q = CHR '']''"
    | (ot) "src ! q \<noteq> CHR ''[''" "src ! q \<noteq> CHR '']''" by blast
  then show ?thesis
  proof cases
    case op
    with nop ql obtain k where k: "k < length src" "matched src q k" "jumps g ! q = Some k" by blast
    then have qk: "q < k" by (simp add: matched_def)
    from k le have "size_add k 1 = Suc k" by (simp add: size_add_small)
    with st op s ql k len inc q qk show ?thesis
      by (auto simp: execute_switch_def source_size_def array_read_def split: if_splits)
  next
    case cl
    with ncl nu ql obtain i where i: "i < q" "matched src i q" "jumps g ! q = Some i" by blast
    from st cl s ql len i have q': "q' = size_add (size_sub i 1) 1"
      by (auto simp: execute_switch_def source_size_def array_read_def split: if_splits)
    have i0: "i \<noteq> 0"
    proof
      assume "i = 0"
      with i matched_close_unique [OF m, of q] q show False by simp
    qed
    from m i have "i \<noteq> j" by (auto simp: matched_def)
    moreover have "\<not> i < j"
    proof
      assume "i < j"
      with matched_no_crossing [OF m i(2)] i0 q show False by simp
    qed
    ultimately have ji': "j < i" by simp
    from i ql le have "i \<le> SIZE_MAX" by simp
    with i0 have "size_sub i 1 = i - 1" by (simp add: size_sub_small)
    moreover from i ql le i0 have "size_add (i - 1) 1 = i" by (simp add: size_add_small)
    ultimately show ?thesis using q' ji' by simp
  next
    case ot
    with st s ql inc q show ?thesis
      by (auto simp: execute_switch_def source_size_def Let_def
          split: if_splits sum.splits list.splits)
  qed
qed

lemma bfi_run:
  assumes "bfi n src dbg inp = Running q h"
  shows "\<exists>p. prepare (initial_globals src dbg inp) = Inr (True, p)
     \<and> prepared (initial_globals src dbg inp) p \<and> run n (Running 0 p) = Running q h"
proof -
  let ?ini = "initial_globals src dbg inp"
  have src: "source ?ini = src" by (simp add: initial_globals_def)
  from prepare_prepared [of ?ini] obtain p where
    p: "prepare ?ini = Inr (balanced src, p)" and pd: "prepared ?ini p"
    unfolding src by blast
  from bfi_Running(1) [OF assms] p pd assms show ?thesis
    by (auto simp: bfi_def execute_def)
qed

lemma loop_at_zero_skipped:
  assumes r: "bfi n src dbg inp = Running q h" and le: "length src \<le> SIZE_MAX"
    and m: "matched src 0 j"
  shows "n = 0 \<and> q = 0 \<or> j < q"
proof -
  let ?ini = "initial_globals src dbg inp"
  from bfi_run [OF r] obtain p where pd: "prepared ?ini p"
    and run: "run n (Running 0 p) = Running q h" by blast
  note bal = bfi_Running(1) [OF r]
  from bal have "open_reports src = []" by (simp add: balanced_no_reports)
  then have "filter (unmatched_open src) [0..<length src] = []" by (simp add: open_reports_def)
  with pd have ji: "jumps_inv src (length src) [] (jumps p)" and s: "source p = src"
    and z: "cells p ! cellptr p = 0"
    by (simp_all add: prepared_def initial_globals_def CELL_COUNT_def)
  from m have mj: "0 < j" "j < length src" "src ! 0 = CHR ''[''" by (simp_all add: matched_def)
  then have ne: "src \<noteq> []" by auto
  from matched_jump [OF ji m] have rd: "array_read (jumps p) 0 = Inr j"
    by (simp add: array_read_def)
  from mj le have "size_add j 1 = Suc j" by (simp add: size_add_small)
  with rd z s mj ne have first: "step (Running 0 p) = Running (Suc j) p"
    by (simp add: execute_switch_def source_size_def)
  show ?thesis
  proof (cases n)
    case 0
    with run show ?thesis by simp
  next
    case (Suc k)
    with run first have rk: "run k (Running (Suc j) p) = Running q h"
      by (simp del: step.simps)
    let ?P = "\<lambda>pc g. j < pc \<and> source g = src \<and> jumps g = jumps p"
    have "?P q h"
    proof (rule run_config_invariant [where P = ?P, OF _ _ rk])
      fix pc g pc' g'
      assume P: "?P pc g" and st: "step (Running pc g) = Running pc' g'"
      from P ji have ji': "jumps_inv src (length src) [] (jumps g)" by simp
      from P have "source g = src" "j < pc" by simp_all
      from step_stays_past [OF ji' this(1) bal le m this(2) st] step_fields [of pc g pc' g'] st P
      show "?P pc' g'" by simp
    next
      show "?P (Suc j) p" using s by simp
    qed
    then show ?thesis by simp
  qed
qed


section \<open>The claims\<close>

subsection \<open>C1: loop-open\<close>

text \<open>
  Claim C1, as the code has it. In every run of the interpreter that is about to process a
  loop-open byte at \<open>pc\<close> whose partner is the loop-close byte at \<open>j\<close>: when the current
  cell is zero, the \<^verbatim>\<open>switch\<close> sets \<^verbatim>\<open>pc\<close> to \<open>j\<close> and the increment of the \<^verbatim>\<open>for\<close>
  statement follows, so the next iteration is at \<open>j + 1\<close>, the byte after the loop-close:
  the loop body is skipped and the loop-close byte is not processed. When the current cell
  is not zero, the next iteration is at \<open>pc + 1\<close>, the first byte of the loop body.
\<close>

theorem loop_open_step:
  assumes "bfi n src dbg inp = Running pc g" and "length src \<le> SIZE_MAX"
    and "matched src pc j"
  shows "(cells g ! cellptr g = 0 \<longrightarrow>
            execute_switch pc g = Proceed j g \<and> bfi (Suc n) src dbg inp = Running (Suc j) g)
       \<and> (cells g ! cellptr g \<noteq> 0 \<longrightarrow> bfi (Suc n) src dbg inp = Running (Suc pc) g)"
proof -
  note r = bfi_Running [OF assms(1)]
  from assms(3) have m: "pc < j" "j < length src" "src ! pc = CHR ''[''"
    by (simp_all add: matched_def)
  from matched_jump [OF r(4) assms(3)] have "array_read (jumps g) pc = Inr j"
    by (simp add: array_read_def)
  moreover from m assms(2) have "size_add j 1 = Suc j" "size_add pc 1 = Suc pc"
    by (simp_all add: size_add_small)
  ultimately show ?thesis
    using m r(2) by (simp add: bfi_Suc [OF assms(1)] execute_switch_def source_size_def)
qed

theorem loop_open_step_witness:
  "(bfi 0 ''[]'' False [] = Running 0 empty_loop \<and> length ''[]'' \<le> SIZE_MAX
      \<and> matched ''[]'' 0 1 \<and> cells empty_loop ! cellptr empty_loop = 0
      \<and> execute_switch 0 empty_loop = Proceed 1 empty_loop
      \<and> bfi (Suc 0) ''[]'' False [] = Running (Suc 1) empty_loop)
   \<and> (\<exists>g. bfi 1 ''+[-]'' False [] = Running 1 g \<and> length ''+[-]'' \<le> SIZE_MAX
      \<and> matched ''+[-]'' 1 3 \<and> cells g ! cellptr g \<noteq> 0
      \<and> bfi (Suc 1) ''+[-]'' False [] = Running (Suc 1) g)"
proof (intro conjI)
  have le: "length ''[]'' \<le> SIZE_MAX" by (simp add: SIZE_MAX_def)
  from loop_open_step [OF bfi_empty_loop(1) le matched_empty_loop] bfi_empty_loop(1,4)
    le matched_empty_loop
  show "bfi 0 ''[]'' False [] = Running 0 empty_loop" and "length ''[]'' \<le> SIZE_MAX"
    and "matched ''[]'' 0 1" and "cells empty_loop ! cellptr empty_loop = 0"
    and "execute_switch 0 empty_loop = Proceed 1 empty_loop"
    and "bfi (Suc 0) ''[]'' False [] = Running (Suc 1) empty_loop"
    by simp_all
next
  let ?st = "(initial_globals ''+[-]'' False [])\<lparr>lines := [Some 1, Some 1, Some 1, Some 1],
      jumps := [None, Some 3, None, Some 1], cells := (replicate CELL_COUNT 0)[0 := 1]\<rparr>"
  have r: "bfi 1 ''+[-]'' False [] = Running 1 ?st"
    by (simp add: bfi_eval)
  have le: "length ''+[-]'' \<le> SIZE_MAX" by (simp add: SIZE_MAX_def)
  have m: "matched ''+[-]'' 1 3" by (simp add: matched_eval)
  have c: "cells ?st ! cellptr ?st \<noteq> 0" by (simp add: initial_globals_def CELL_COUNT_def)
  from loop_open_step [OF r le m] r le m c
  show "\<exists>g. bfi 1 ''+[-]'' False [] = Running 1 g \<and> length ''+[-]'' \<le> SIZE_MAX
      \<and> matched ''+[-]'' 1 3 \<and> cells g ! cellptr g \<noteq> 0
      \<and> bfi (Suc 1) ''+[-]'' False [] = Running (Suc 1) g"
    by blast
qed

text \<open>
  Claim C1 as it is written fails on the program \<^verbatim>\<open>[]\<close>: with the current cell zero,
  the iteration at the loop-open byte (offset 0) is followed by the loop test at offset 2,
  not by an iteration at the loop-close byte (offset 1), and the run returns after that
  single pass through the \<^verbatim>\<open>switch\<close>.
\<close>

theorem loop_open_resumes_at_close_counterexample:
  "bfi 0 ''[]'' False [] = Running 0 empty_loop
   \<and> matched ''[]'' 0 1 \<and> cells empty_loop ! cellptr empty_loop = 0
   \<and> bfi 1 ''[]'' False [] \<noteq> Running 1 empty_loop
   \<and> bfi 1 ''[]'' False [] = Running 2 empty_loop
   \<and> bfi 2 ''[]'' False [] = Returned True empty_loop"
  using bfi_empty_loop matched_empty_loop by simp

subsection \<open>C2: the jump table of a balanced buffer\<close>

text \<open>
  Claim C2. For every source buffer with as many loop-open as loop-close bytes, correctly
  nested, \<^verbatim>\<open>prepare\<close> returns success, and in the jump table it leaves every offset \<open>i\<close>
  that holds a bracket byte has an entry \<open>j\<close> whose own entry is \<open>i\<close>, where \<open>j\<close> is the
  partner of \<open>i\<close>: the bytes strictly between the two are balanced.
\<close>

theorem prepare_jump_table_involution:
  assumes "balanced (source g)"
  shows "\<exists>g'. prepare g = Inr (True, g') \<and> length (jumps g') = length (source g) \<and>
     (\<forall>i < length (source g). source g ! i = CHR ''['' \<or> source g ! i = CHR '']'' \<longrightarrow>
        (\<exists>j < length (source g). jumps g' ! i = Some j \<and> jumps g' ! j = Some i \<and>
            (matched (source g) i j \<or> matched (source g) j i)))"
proof -
  let ?src = "source g"
  let ?n = "length ?src"
  from prepare_prepared [of g] assms obtain g' where
    p: "prepare g = Inr (True, g')" and pd: "prepared g g'"
    and nc: "close_reports ?src ?n = []" and no: "open_reports ?src = []"
    by auto
  from no have "filter (unmatched_open ?src) [0..<?n] = []" by (simp add: open_reports_def)
  with pd have ji: "jumps_inv ?src ?n [] (jumps g')" by (simp add: prepared_def)
  from nc have ncl: "\<forall>j < ?n. \<not> unmatched_close ?src j"
    by (simp add: close_reports_def filter_empty_conv)
  from ji have len: "length (jumps g') = ?n"
    and op: "\<forall>i < ?n. ?src ! i = CHR ''['' \<longrightarrow>
        (\<exists>j < ?n. matched ?src i j \<and> jumps g' ! i = Some j \<and> jumps g' ! j = Some i)"
    and cl: "\<forall>j < ?n. ?src ! j = CHR '']'' \<longrightarrow> unmatched_close ?src j \<or>
        (\<exists>i < j. matched ?src i j \<and> jumps g' ! i = Some j \<and> jumps g' ! j = Some i)"
    by (simp_all add: jumps_inv_def)
  have "\<exists>j < ?n. jumps g' ! i = Some j \<and> jumps g' ! j = Some i \<and>
            (matched ?src i j \<or> matched ?src j i)"
    if i: "i < ?n" and br: "?src ! i = CHR ''['' \<or> ?src ! i = CHR '']''" for i
  proof -
    from br show ?thesis
    proof
      assume "?src ! i = CHR ''[''"
      with op i show ?thesis by blast
    next
      assume c: "?src ! i = CHR '']''"
      with cl ncl i obtain k where "k < i" "matched ?src k i" "jumps g' ! k = Some i"
        "jumps g' ! i = Some k" by blast
      with i show ?thesis by (intro exI [of _ k]) simp
    qed
  qed
  with p len show ?thesis by blast
qed

theorem prepare_jump_table_involution_witness:
  "balanced (source (initial_globals ''[[]]'' False []))
   \<and> prepare (initial_globals ''[[]]'' False []) =
       Inr (True, (initial_globals ''[[]]'' False [])\<lparr>lines := [Some 1, Some 1, Some 1, Some 1],
          jumps := [Some 3, Some 2, Some 1, Some 0]\<rparr>)
   \<and> (\<exists>g'. prepare (initial_globals ''[[]]'' False []) = Inr (True, g')
        \<and> length (jumps g') = 4
        \<and> (\<exists>j<4. jumps g' ! 0 = Some j \<and> jumps g' ! j = Some 0 \<and>
              (matched ''[[]]'' 0 j \<or> matched ''[[]]'' j 0))
        \<and> (\<exists>j<4. jumps g' ! 2 = Some j \<and> jumps g' ! j = Some 2 \<and>
              (matched ''[[]]'' 2 j \<or> matched ''[[]]'' j 2)))"
proof -
  let ?ini = "initial_globals ''[[]]'' False []"
  have s: "source ?ini = ''[[]]''" by (simp add: initial_globals_def)
  have b: "balanced (source ?ini)" by (simp add: s balanced_nesting)
  have p: "prepare ?ini = Inr (True, ?ini\<lparr>lines := [Some 1, Some 1, Some 1, Some 1],
          jumps := [Some 3, Some 2, Some 1, Some 0]\<rparr>)"
    by (simp add: bfi_eval)
  from prepare_jump_table_involution [OF b] obtain g' where
    g: "prepare ?ini = Inr (True, g')" "length (jumps g') = length (source ?ini)"
    and a: "\<forall>i < length (source ?ini). source ?ini ! i = CHR ''['' \<or> source ?ini ! i = CHR '']'' \<longrightarrow>
        (\<exists>j < length (source ?ini). jumps g' ! i = Some j \<and> jumps g' ! j = Some i \<and>
            (matched (source ?ini) i j \<or> matched (source ?ini) j i))"
    by blast
  have l: "length ''[[]]'' = 4" by simp
  have i0: "0 < length (source ?ini)" "source ?ini ! 0 = CHR ''['' \<or> source ?ini ! 0 = CHR '']''"
    and i2: "2 < length (source ?ini)" "source ?ini ! 2 = CHR ''['' \<or> source ?ini ! 2 = CHR '']''"
    by (simp_all add: s)
  from a [rule_format, OF i0] a [rule_format, OF i2] g(2)
  have "length (jumps g') = 4
        \<and> (\<exists>j<4. jumps g' ! 0 = Some j \<and> jumps g' ! j = Some 0 \<and>
              (matched ''[[]]'' 0 j \<or> matched ''[[]]'' j 0))
        \<and> (\<exists>j<4. jumps g' ! 2 = Some j \<and> jumps g' ! j = Some 2 \<and>
              (matched ''[[]]'' 2 j \<or> matched ''[[]]'' j 2))"
    unfolding s l by (intro conjI)
  with b p g(1) show ?thesis by blast
qed

subsection \<open>C3: moving the pointer off the tape\<close>

text \<open>
  Claim C3. In every run of the interpreter, a move-right byte processed with the tape
  pointer at the last index \<open>CELL_COUNT - 1\<close>, or a move-left byte processed with the tape
  pointer at 0, ends the run: \<^verbatim>\<open>execute\<close> returns \<open>False\<close>, whatever the number of further
  iterations allowed, in the state it was in with one message added, which gives the line
  number of that byte. Nothing else has changed, so no later instruction has run.
\<close>

theorem pointer_bounds_fatal:
  assumes "bfi n src dbg inp = Running pc g" and "pc < length src"
  shows "(src ! pc = CHR ''>'' \<and> cellptr g = CELL_COUNT - 1 \<longrightarrow>
            bfi (n + Suc k) src dbg inp =
              Returned False (g\<lparr>stderr := stderr g @ [Right_out_of_bounds (line_of src pc)]\<rparr>))
       \<and> (src ! pc = CHR ''<'' \<and> cellptr g = 0 \<longrightarrow>
            bfi (n + Suc k) src dbg inp =
              Returned False (g\<lparr>stderr := stderr g @ [Left_out_of_bounds (line_of src pc)]\<rparr>))"
proof -
  note r = bfi_Running [OF assms(1)]
  from r(3) assms(2) have l: "array_read (lines g) pc = Inr (line_of src pc)"
    by (simp add: array_read_def)
  have "step (Running pc g) =
      Returned False (g\<lparr>stderr := stderr g @ [Right_out_of_bounds (line_of src pc)]\<rparr>)"
    if "src ! pc = CHR ''>''" "cellptr g = CELL_COUNT - 1"
    using that l r(2) assms(2) by (simp add: execute_switch_def source_size_def errorf_def)
  moreover have "step (Running pc g) =
      Returned False (g\<lparr>stderr := stderr g @ [Left_out_of_bounds (line_of src pc)]\<rparr>)"
    if "src ! pc = CHR ''<''" "cellptr g = 0"
    using that l r(2) assms(2) by (simp add: execute_switch_def source_size_def errorf_def)
  ultimately show ?thesis
    using bfi_stays_Returned [OF assms(1)] by blast
qed

theorem pointer_bounds_fatal_witness:
  "(\<exists>g. bfi 0 ''<'' False [] = Running 0 g \<and> (0::nat) < length ''<''
        \<and> ''<'' ! 0 = CHR ''<'' \<and> cellptr g = 0
        \<and> bfi (0 + Suc 0) ''<'' False [] = Returned False (g\<lparr>stderr := [Left_out_of_bounds 1]\<rparr>))
   \<and> (\<exists>g. bfi 29999 (replicate 29999 (CHR ''>'') @ ''>'') False [] = Running 29999 g
        \<and> (29999::nat) < length (replicate 29999 (CHR ''>'') @ ''>'')
        \<and> (replicate 29999 (CHR ''>'') @ ''>'') ! 29999 = CHR ''>''
        \<and> cellptr g = CELL_COUNT - 1
        \<and> bfi (29999 + Suc 0) (replicate 29999 (CHR ''>'') @ ''>'') False [] =
            Returned False (g\<lparr>stderr := [Right_out_of_bounds 1]\<rparr>))"
proof (intro conjI)
  let ?st = "(initial_globals ''<'' False [])\<lparr>lines := [Some 1], jumps := [None]\<rparr>"
  have r: "bfi 0 ''<'' False [] = Running 0 ?st" by (simp add: bfi_eval)
  have a: "(0::nat) < length ''<''" by simp
  have l: "line_of ''<'' 0 = 1" by (simp add: line_of_def)
  have e: "stderr ?st = []" "cellptr ?st = 0" by (simp_all add: initial_globals_def)
  from pointer_bounds_fatal [OF r a, of 0] r l e
  show "\<exists>g. bfi 0 ''<'' False [] = Running 0 g \<and> (0::nat) < length ''<''
        \<and> ''<'' ! 0 = CHR ''<'' \<and> cellptr g = 0
        \<and> bfi (0 + Suc 0) ''<'' False [] = Returned False (g\<lparr>stderr := [Left_out_of_bounds 1]\<rparr>)"
    by (intro exI [of _ ?st]) simp
next
  let ?src = "replicate 29999 (CHR ''>'') @ ''>''"
  have "balanced ?src" by (intro balanced_moves_right) simp_all
  from bfi_moves_right [OF _ _ this, of False "[]"] obtain g where
    r: "bfi 29999 ?src False [] = Running 29999 g" and c: "cellptr g = 29999" and e: "stderr g = []"
    by (auto simp: CELL_COUNT_def SIZE_MAX_def)
  have a: "29999 < length ?src" by simp
  have l: "line_of ?src 29999 = 1" by (simp add: line_of_def count_list_replicate_other)
  have s: "?src ! 29999 = CHR ''>''" by (simp add: nth_append)
  from c have c': "cellptr g = CELL_COUNT - 1" by (simp add: CELL_COUNT_def)
  from pointer_bounds_fatal [OF r a, of 0] s c' l e
  have "bfi (29999 + Suc 0) ?src False [] = Returned False (g\<lparr>stderr := [Right_out_of_bounds 1]\<rparr>)"
    by simp
  with r a s c' show "\<exists>g. bfi 29999 ?src False [] = Running 29999 g
        \<and> (29999::nat) < length ?src \<and> ?src ! 29999 = CHR ''>'' \<and> cellptr g = CELL_COUNT - 1
        \<and> bfi (29999 + Suc 0) ?src False [] =
            Returned False (g\<lparr>stderr := [Right_out_of_bounds 1]\<rparr>)"
    by blast
qed

subsection \<open>C4: the table of the diagnostic instruction\<close>

text \<open>
  Claim C4 fails in the code. With diagnostics enabled, the program of 29993 move-right
  bytes followed by \<^verbatim>\<open>#\<close> reaches the diagnostic instruction with the tape pointer at
  29993; the table starts at cell 29991 and the loop over its ten rows reads
  \<^verbatim>\<open>cells[30000]\<close>, one past the last cell of the tape.
\<close>

theorem dump_reads_past_the_tape:
  "bfi 29994 (replicate 29993 (CHR ''>'') @ ''#'') True [] = Crashed (Out_of_bounds_read 30000)"
proof -
  let ?src = "replicate 29993 (CHR ''>'') @ ''#''"
  have "balanced ?src" by (intro balanced_moves_right) simp_all
  from bfi_moves_right [OF _ _ this, of True "[]"] obtain g where
    r: "bfi 29993 ?src True [] = Running 29993 g" and c: "cellptr g = 29993" and d: "debug g"
    by (auto simp: CELL_COUNT_def SIZE_MAX_def)
  note s = bfi_Running(2) [OF r]
  have b: "size_sub 29993 2 = 29991" by (simp add: size_sub_def SIZE_MAX_def)
  have e: "size_add 29991 10 = 30001" by (simp add: size_add_def SIZE_MAX_def)
  have "dump g = dump_rows 29991 30001 (g\<lparr>stdout := stdout g @ [Dump_header]\<rparr>)"
    by (simp add: dump_def c b e del: dump_rows.simps)
  also have "\<dots> = Inl (Out_of_bounds_read CELL_COUNT)"
    by (rule dump_rows_overrun) (simp_all add: CELL_COUNT_def)
  finally have "dump g = Inl (Out_of_bounds_read CELL_COUNT)" .
  with s d have "step (Running 29993 g) = Crashed (Out_of_bounds_read 30000)"
    by (simp add: execute_switch_def source_size_def nth_append CELL_COUNT_def)
  with bfi_Suc [OF r] show ?thesis by (simp del: step.simps)
qed

subsection \<open>C5: the messages of \<^verbatim>\<open>prepare\<close>\<close>

text \<open>
  Claim C5. For every source buffer that is not balanced, \<^verbatim>\<open>prepare\<close> returns failure,
  and the messages it has added are: first one for each loop-close byte without a partner, in
  the order of the scan, with the line number of that byte; then one for each loop-open byte
  without a partner, in increasing order of offset (outermost first), with the line number
  of that byte; and there is at least one message.
\<close>

theorem prepare_reports_every_violation:
  assumes "\<not> balanced (source g)"
  shows "\<exists>g'. prepare g = Inr (False, g') \<and>
     stderr g' = stderr g
        @ map (\<lambda>j. Unbalanced_close (line_of (source g) j))
            (filter (unmatched_close (source g)) [0..<length (source g)])
        @ map (\<lambda>i. Unbalanced_open (line_of (source g) i))
            (filter (unmatched_open (source g)) [0..<length (source g)])
     \<and> stderr g' \<noteq> stderr g"
proof -
  from prepare_prepared [of g] assms obtain g' where
    p: "prepare g = Inr (False, g')" and pd: "prepared g g'"
    and ne: "\<not> (close_reports (source g) (length (source g)) = [] \<and> open_reports (source g) = [])"
    by auto
  from pd have e: "stderr g' = stderr g
      @ close_reports (source g) (length (source g)) @ open_reports (source g)"
    by (simp add: prepared_def)
  with ne have "stderr g' \<noteq> stderr g" by auto
  with p e show ?thesis by (auto simp: close_reports_def open_reports_def)
qed

theorem prepare_reports_every_violation_witness:
  "\<not> balanced (source (initial_globals [CHR '']'', CHR 0x0A, CHR ''['', CHR ''['', CHR '']'', CHR 0x0A, CHR ''['']
        False []))
   \<and> (\<exists>g'. prepare (initial_globals
          [CHR '']'', CHR 0x0A, CHR ''['', CHR ''['', CHR '']'', CHR 0x0A, CHR ''['']
          False []) = Inr (False, g')
        \<and> stderr g' = [Unbalanced_close 1, Unbalanced_open 2, Unbalanced_open 3]
        \<and> jumps g' = [None, None, None, Some 4, Some 3, None, None])
   \<and> map (\<lambda>j. Unbalanced_close
            (line_of [CHR '']'', CHR 0x0A, CHR ''['', CHR ''['', CHR '']'', CHR 0x0A, CHR ''['']  j))
        (filter (unmatched_close [CHR '']'', CHR 0x0A, CHR ''['', CHR ''['', CHR '']'', CHR 0x0A, CHR ''[''])
           [0..<7])
      @ map (\<lambda>i. Unbalanced_open
            (line_of [CHR '']'', CHR 0x0A, CHR ''['', CHR ''['', CHR '']'', CHR 0x0A, CHR ''['']  i))
        (filter (unmatched_open [CHR '']'', CHR 0x0A, CHR ''['', CHR ''['', CHR '']'', CHR 0x0A, CHR ''[''])
           [0..<7])
      = [Unbalanced_close 1, Unbalanced_open 2, Unbalanced_open 3]"
proof -
  let ?src = "[CHR '']'', CHR 0x0A, CHR ''['', CHR ''['', CHR '']'', CHR 0x0A, CHR ''['']"
  let ?ini = "initial_globals ?src False []"
  let ?res = "?ini\<lparr>lines := [Some 1, Some 1, Some 2, Some 2, Some 2, Some 2, Some 3],
      jumps := [None, None, None, Some 4, Some 3, None, None],
      stderr := [Unbalanced_close 1, Unbalanced_open 2, Unbalanced_open 3]\<rparr>"
  have s: "source ?ini = ?src" "stderr ?ini = []" by (simp_all add: initial_globals_def)
  have b: "\<not> balanced (source ?ini)" by (simp add: s balanced_nesting)
  have p: "prepare ?ini = Inr (False, ?res)"
    by (simp add: bfi_eval)
  have r: "stderr ?res = [Unbalanced_close 1, Unbalanced_open 2, Unbalanced_open 3]"
    "jumps ?res = [None, None, None, Some 4, Some 3, None, None]" by simp_all
  have l: "length ?src = 7" by simp
  from prepare_reports_every_violation [OF b] obtain g' where
    g: "prepare ?ini = Inr (False, g')"
    and e: "stderr g' = stderr ?ini
        @ map (\<lambda>j. Unbalanced_close (line_of (source ?ini) j))
            (filter (unmatched_close (source ?ini)) [0..<length (source ?ini)])
        @ map (\<lambda>i. Unbalanced_open (line_of (source ?ini) i))
            (filter (unmatched_open (source ?ini)) [0..<length (source ?ini)])"
    by blast
  from g p have "g' = ?res" by (simp only: sum.inject prod.inject)
  from e [unfolded this s l r append_Nil, symmetric] r p b show ?thesis
    by (intro conjI exI [of _ ?res])
qed

subsection \<open>C6: the tape pointer stays on the tape\<close>

text \<open>
  Claim C6. The tape pointer starts at 0; in every state a run of the interpreter reaches,
  running or returned, it is below \<open>CELL_COUNT\<close>; every iteration from a state where it is
  below \<open>CELL_COUNT\<close> leaves it so; and a move-right at the last index or a move-left at
  index 0 does not continue the run with another pointer value.
\<close>

theorem cellptr_in_bounds:
  "cellptr (initial_globals src dbg inp) = 0
   \<and> (bfi n src dbg inp = Running pc g \<or> bfi n src dbg inp = Returned b g \<longrightarrow>
        cellptr g < CELL_COUNT)
   \<and> (cellptr h < CELL_COUNT \<and>
        (step (Running q h) = Running q' h' \<or> step (Running q h) = Returned b' h') \<longrightarrow>
        cellptr h' < CELL_COUNT)
   \<and> (q < source_size h \<and>
        (source h ! q = CHR ''>'' \<and> cellptr h = CELL_COUNT - 1 \<or>
         source h ! q = CHR ''<'' \<and> cellptr h = 0) \<longrightarrow>
        step (Running q h) \<noteq> Running q' h')"
proof (intro conjI impI)
  show "cellptr (initial_globals src dbg inp) = 0" by (simp add: initial_globals_def)
next
  assume "bfi n src dbg inp = Running pc g \<or> bfi n src dbg inp = Returned b g"
  then show "cellptr g < CELL_COUNT"
    using bfi_Running(6) bfi_Returned by blast
next
  assume "cellptr h < CELL_COUNT \<and>
        (step (Running q h) = Running q' h' \<or> step (Running q h) = Returned b' h')"
  then show "cellptr h' < CELL_COUNT" using step_cellptr by blast
next
  assume "q < source_size h \<and>
        (source h ! q = CHR ''>'' \<and> cellptr h = CELL_COUNT - 1 \<or>
         source h ! q = CHR ''<'' \<and> cellptr h = 0)"
  then show "step (Running q h) \<noteq> Running q' h'"
    by (auto simp: execute_switch_def split: sum.splits)
qed

theorem cellptr_in_bounds_witness:
  "\<exists>g h. bfi 1 ''>'' False [] = Running 1 g \<and> cellptr g = 1 \<and> cellptr g < CELL_COUNT
     \<and> bfi 0 ''<'' False [] = Running 0 h \<and> 0 < source_size h \<and> source h ! 0 = CHR ''<''
     \<and> cellptr h = 0 \<and> step (Running 0 h) \<noteq> Running 1 (h\<lparr>cellptr := SIZE_MAX\<rparr>)"
proof -
  let ?a = "(initial_globals ''>'' False [])\<lparr>lines := [Some 1], jumps := [None], cellptr := 1\<rparr>"
  let ?b = "(initial_globals ''<'' False [])\<lparr>lines := [Some 1], jumps := [None]\<rparr>"
  have ra: "bfi 1 ''>'' False [] = Running 1 ?a" by (simp add: bfi_eval)
  have rb: "bfi 0 ''<'' False [] = Running 0 ?b" by (simp add: bfi_eval)
  have ca: "cellptr ?a = 1" by simp
  have hb: "0 < source_size ?b" "source ?b ! 0 = CHR ''<''" "cellptr ?b = 0"
    by (simp_all add: initial_globals_def source_size_def)
  from cellptr_in_bounds [where src = "''>''" and dbg = False and inp = "[]" and n = 1
      and pc = 1 and g = ?a and h = ?b and q = 0 and q' = 1
      and h' = "?b\<lparr>cellptr := SIZE_MAX\<rparr>"]
    ra hb
  have "cellptr ?a < CELL_COUNT" "step (Running 0 ?b) \<noteq> Running 1 (?b\<lparr>cellptr := SIZE_MAX\<rparr>)"
    by (simp_all del: step.simps)
  with ra rb ca hb show ?thesis by blast
qed

subsection \<open>C7: input\<close>

text \<open>
  Claim C7. In every run of the interpreter that is about to process an input byte: when the
  standard input still has a byte \<open>b\<close>, the next state has \<open>b\<close> in the current cell and the
  rest of the input, and nothing else has changed; when the standard input is at its end,
  the next state is the same state: the cell is unchanged, no message is written, and the
  run goes on at the next byte.
\<close>

theorem input_step:
  assumes "bfi n src dbg inp = Running pc g" and "pc < length src" and "src ! pc = CHR '',''"
  shows "(\<forall>b bs. stdin g = b # bs \<longrightarrow>
            bfi (Suc n) src dbg inp =
              Running (size_add pc 1) (g\<lparr>cells := (cells g)[cellptr g := b], stdin := bs\<rparr>)
            \<and> (cells g)[cellptr g := b] ! cellptr g = b)
       \<and> (stdin g = [] \<longrightarrow> bfi (Suc n) src dbg inp = Running (size_add pc 1) g)"
proof -
  note r = bfi_Running [OF assms(1)]
  from r(5,6) have "cellptr g < length (cells g)" by simp
  with assms(2,3) r(2) show ?thesis
    by (simp add: bfi_Suc [OF assms(1)] execute_switch_def source_size_def split: list.splits)
qed

theorem input_step_witness:
  "(\<exists>g. bfi 0 '','' False [65] = Running 0 g \<and> stdin g = [65]
      \<and> bfi (Suc 0) '','' False [65] =
           Running 1 (g\<lparr>cells := (cells g)[cellptr g := 65], stdin := []\<rparr>)
      \<and> (cells g)[cellptr g := 65] ! cellptr g = 65)
   \<and> (\<exists>g. bfi 0 '','' False [] = Running 0 g \<and> stdin g = []
      \<and> bfi (Suc 0) '','' False [] = Running 1 g)"
proof (intro conjI)
  let ?st = "(initial_globals '','' False [65])\<lparr>lines := [Some 1], jumps := [None]\<rparr>"
  have r: "bfi 0 '','' False [65] = Running 0 ?st" by (simp add: bfi_eval)
  have a: "(0::nat) < length '',''" "'','' ! 0 = CHR '',''" by simp_all
  have i: "stdin ?st = [65]" by (simp add: initial_globals_def)
  have s: "size_add 0 1 = 1" by (simp add: size_add_def SIZE_MAX_def)
  from input_step [OF r a] i s
  have "bfi (Suc 0) '','' False [65] =
           Running 1 (?st\<lparr>cells := (cells ?st)[cellptr ?st := 65], stdin := []\<rparr>)
      \<and> (cells ?st)[cellptr ?st := 65] ! cellptr ?st = 65"
    by (simp del: One_nat_def)
  with r i show "\<exists>g. bfi 0 '','' False [65] = Running 0 g \<and> stdin g = [65]
      \<and> bfi (Suc 0) '','' False [65] =
           Running 1 (g\<lparr>cells := (cells g)[cellptr g := 65], stdin := []\<rparr>)
      \<and> (cells g)[cellptr g := 65] ! cellptr g = 65"
    by blast
next
  let ?st = "(initial_globals '','' False [])\<lparr>lines := [Some 1], jumps := [None]\<rparr>"
  have r: "bfi 0 '','' False [] = Running 0 ?st" by (simp add: bfi_eval)
  have a: "(0::nat) < length '',''" "'','' ! 0 = CHR '',''" by simp_all
  have i: "stdin ?st = []" by (simp add: initial_globals_def)
  have s: "size_add 0 1 = 1" by (simp add: size_add_def SIZE_MAX_def)
  from input_step [OF r a] i s
  have "bfi (Suc 0) '','' False [] = Running 1 ?st"
    by (simp del: One_nat_def)
  with r i show "\<exists>g. bfi 0 '','' False [] = Running 0 g \<and> stdin g = []
      \<and> bfi (Suc 0) '','' False [] = Running 1 g"
    by blast
qed

subsection \<open>C8: cell arithmetic\<close>

text \<open>
  Claim C8. From any state, 256 increment instructions in a row leave the state as it was,
  whatever the value of the current cell; a decrement of a cell that holds 0 leaves 255 in
  it and an increment of a cell that holds 255 leaves 0 in it, and in both the run goes on.
\<close>

theorem cell_arithmetic_wraps:
  "(pc + 256 \<le> source_size g \<and> source_size g \<le> SIZE_MAX \<and>
      (\<forall>i<256. source g ! (pc + i) = CHR ''+'') \<longrightarrow>
        run 256 (Running pc g) = Running (pc + 256) g)
   \<and> (pc < source_size g \<and> source g ! pc = CHR ''-'' \<and> cellptr g < length (cells g) \<and>
      cells g ! cellptr g = 0 \<longrightarrow>
        step (Running pc g) = Running (size_add pc 1) (g\<lparr>cells := (cells g)[cellptr g := 255]\<rparr>)
        \<and> (cells g)[cellptr g := 255] ! cellptr g = 255)
   \<and> (pc < source_size g \<and> source g ! pc = CHR ''+'' \<and> cellptr g < length (cells g) \<and>
      cells g ! cellptr g = 255 \<longrightarrow>
        step (Running pc g) = Running (size_add pc 1) (g\<lparr>cells := (cells g)[cellptr g := 0]\<rparr>)
        \<and> (cells g)[cellptr g := 0] ! cellptr g = 0)"
proof -
  have m: "(0::cell) - 1 = 255" by simp
  have z: "(256 :: cell) = 0" by simp
  show ?thesis
  proof (intro conjI impI)
  assume a: "pc + 256 \<le> source_size g \<and> source_size g \<le> SIZE_MAX \<and>
      (\<forall>i<256. source g ! (pc + i) = CHR ''+'')"
  from run_plus [of pc 256 g] a show "run 256 (Running pc g) = Running (pc + 256) g"
    by (simp add: z)
next
  assume h: "pc < source_size g \<and> source g ! pc = CHR ''-'' \<and> cellptr g < length (cells g) \<and>
      cells g ! cellptr g = 0"
  with step_minus [of pc g] have "step (Running pc g) =
      Running (size_add pc 1) (g\<lparr>cells := (cells g)[cellptr g := 0 - 1]\<rparr>)"
    by (simp del: step.simps)
  then show "step (Running pc g) =
      Running (size_add pc 1) (g\<lparr>cells := (cells g)[cellptr g := 255]\<rparr>)"
    unfolding m .
  from h show "(cells g)[cellptr g := 255] ! cellptr g = 255" by simp
next
  assume "pc < source_size g \<and> source g ! pc = CHR ''+'' \<and> cellptr g < length (cells g) \<and>
      cells g ! cellptr g = 255"
  then show "step (Running pc g) =
      Running (size_add pc 1) (g\<lparr>cells := (cells g)[cellptr g := 0]\<rparr>)"
    and "(cells g)[cellptr g := 0] ! cellptr g = 0"
    using step_plus [of pc g] by (simp_all del: step.simps add: z)
  qed
qed

theorem cell_arithmetic_wraps_witness:
  "run 256 (Running 0 (initial_globals (replicate 256 (CHR ''+'')) False []))
     = Running 256 (initial_globals (replicate 256 (CHR ''+'')) False [])
   \<and> cells (initial_globals ''-'' False []) ! cellptr (initial_globals ''-'' False []) = 0
   \<and> step (Running 0 (initial_globals ''-'' False []))
     = Running 1 ((initial_globals ''-'' False [])\<lparr>cells := (replicate CELL_COUNT 0)[0 := 255]\<rparr>)
   \<and> (replicate CELL_COUNT (0::cell))[0 := 255] ! 0 = 255"
proof -
  let ?a = "initial_globals (replicate 256 (CHR ''+'')) False []"
  let ?b = "initial_globals ''-'' False []"
  have a: "0 + 256 \<le> source_size ?a \<and> source_size ?a \<le> SIZE_MAX \<and>
      (\<forall>i<256. source ?a ! (0 + i) = CHR ''+'')"
    by (simp add: initial_globals_def source_size_def SIZE_MAX_def)
  have b: "0 < source_size ?b \<and> source ?b ! 0 = CHR ''-'' \<and> cellptr ?b < length (cells ?b) \<and>
      cells ?b ! cellptr ?b = 0"
    by (simp add: initial_globals_def source_size_def CELL_COUNT_def)
  have s: "size_add 0 1 = 1" by (simp add: size_add_def SIZE_MAX_def)
  have c: "cells ?b = replicate CELL_COUNT 0" "cellptr ?b = 0" by (simp_all add: initial_globals_def)
  from cell_arithmetic_wraps [of 0 ?a] a
  have 1: "run 256 (Running 0 ?a) = Running 256 ?a" by simp
  from cell_arithmetic_wraps [of 0 ?b] b
  have 2: "step (Running 0 ?b) = Running (size_add 0 1) (?b\<lparr>cells := (cells ?b)[cellptr ?b := 255]\<rparr>)
        \<and> (cells ?b)[cellptr ?b := 255] ! cellptr ?b = 255"
    by blast
  from 1 2 b show ?thesis unfolding s c by simp
qed

subsection \<open>C9: what an iteration can change\<close>

text \<open>
  Claim C9. Whenever an iteration of the loop of \<^verbatim>\<open>execute\<close> goes on or returns, the
  source buffer, the line map and the jump table are the same after it, the tape has the same
  length, and every tape cell other than the one at the tape pointer the iteration started
  with holds the same value.
\<close>

theorem step_frame:
  assumes "step (Running pc g) = Running pc' g' \<or> step (Running pc g) = Returned b g'"
  shows "source g' = source g \<and> lines g' = lines g \<and> jumps g' = jumps g
     \<and> length (cells g') = length (cells g)
     \<and> (\<forall>i. i \<noteq> cellptr g \<longrightarrow> cells g' ! i = cells g ! i)"
  using step_fields [OF assms] .

theorem step_frame_witness:
  "\<exists>g g'. bfi 1 ''>+'' False [] = Running 1 g \<and> bfi (Suc 1) ''>+'' False [] = Running 2 g'
     \<and> step (Running 1 g) = Running 2 g' \<and> cellptr g = 1 \<and> cells g' ! 1 = 1
     \<and> source g' = source g \<and> lines g' = lines g \<and> jumps g' = jumps g
     \<and> length (cells g') = length (cells g) \<and> cells g' ! 0 = cells g ! 0
     \<and> cells g' ! 2 = cells g ! 2"
proof -
  let ?a = "(initial_globals ''>+'' False [])\<lparr>lines := [Some 1, Some 1], jumps := [None, None],
      cellptr := 1\<rparr>"
  let ?b = "?a\<lparr>cells := (replicate CELL_COUNT 0)[1 := 1]\<rparr>"
  have ra: "bfi 1 ''>+'' False [] = Running 1 ?a" by (simp add: bfi_eval)
  have st: "step (Running 1 ?a) = Running 2 ?b"
    by (simp add: bfi_eval)
  with bfi_Suc [OF ra] have rb: "bfi (Suc 1) ''>+'' False [] = Running 2 ?b"
    by (simp only:)
  have c: "cellptr ?a = 1" "cells ?b ! 1 = 1" by (simp_all add: CELL_COUNT_def)
  from step_frame [of 1 ?a 2 ?b] st
  have "source ?b = source ?a \<and> lines ?b = lines ?a \<and> jumps ?b = jumps ?a
     \<and> length (cells ?b) = length (cells ?a)
     \<and> (\<forall>i. i \<noteq> cellptr ?a \<longrightarrow> cells ?b ! i = cells ?a ! i)"
    by blast
  then have "source ?b = source ?a \<and> lines ?b = lines ?a \<and> jumps ?b = jumps ?a
     \<and> length (cells ?b) = length (cells ?a) \<and> cells ?b ! 0 = cells ?a ! 0
     \<and> cells ?b ! 2 = cells ?a ! 2"
    by (simp del: globals.simps)
  with ra rb st c show ?thesis by blast
qed

subsection \<open>C10: a loop that opens at offset 0\<close>

text \<open>
  Claim C10. Take the source buffer and the jump table that a successful \<^verbatim>\<open>prepare\<close> leaves,
  and a loop-close byte at \<open>pc\<close> whose partner is the loop-open byte at offset 0. In
  every state \<open>g\<close> with that buffer and table, whatever the tape holds: the jump table
  has 0 at \<open>pc\<close> and \<open>pc\<close> at 0; the \<^verbatim>\<open>switch\<close> at \<open>pc\<close> leaves \<^verbatim>\<open>pc\<close> at \<open>0 - 1\<close>,
  which wraps around to \<open>SIZE_MAX\<close>; the increment of the \<^verbatim>\<open>for\<close> statement wraps it back
  to 0, so the next iteration is at offset 0 in the same state; and that iteration evaluates
  the loop condition again: it goes on after the loop-close when the current cell is zero,
  and into the loop body at offset 1 when it is not. The last part of the statement is about
  the runs of the whole interpreter: none of them is ever about to process that loop-close,
  since the loop at offset 0 is met with a zero tape and skipped, so the states of the first
  part are those of \<^verbatim>\<open>execute\<close> on a tape that is not all zero.
\<close>

theorem loop_close_to_offset_zero:
  assumes "prepare g0 = Inr (True, g1)" and "length (source g0) \<le> SIZE_MAX"
    and "matched (source g0) 0 pc"
  shows "(source g = source g1 \<and> jumps g = jumps g1 \<longrightarrow>
            array_read (jumps g) pc = Inr 0 \<and> array_read (jumps g) 0 = Inr pc
            \<and> execute_switch pc g = Proceed SIZE_MAX g
            \<and> size_sub 0 1 = SIZE_MAX \<and> size_add SIZE_MAX 1 = 0
            \<and> step (Running pc g) = Running 0 g
            \<and> (cells g ! cellptr g = 0 \<longrightarrow> step (Running 0 g) = Running (Suc pc) g)
            \<and> (cells g ! cellptr g \<noteq> 0 \<longrightarrow> step (Running 0 g) = Running 1 g))
       \<and> (bfi n (source g0) dbg inp = Running q h \<longrightarrow> q \<noteq> pc)"
proof (intro conjI impI)
  assume r: "bfi n (source g0) dbg inp = Running q h"
  from loop_at_zero_skipped [OF r assms(2,3)] assms(3) show "q \<noteq> pc"
    by (auto simp: matched_def)
next
  assume g: "source g = source g1 \<and> jumps g = jumps g1"
  from prepare_prepared [of g0] assms(1) have p: "prepared g0 g1"
    and nr: "open_reports (source g0) = []"
    by auto
  from nr have "filter (unmatched_open (source g0)) [0..<length (source g0)] = []"
    by (simp add: open_reports_def)
  with p have ji: "jumps_inv (source g0) (length (source g0)) [] (jumps g1)"
    and s: "source g1 = source g0"
    by (simp_all add: prepared_def)
  from assms(3) have m: "0 < pc" "pc < length (source g0)" "source g0 ! pc = CHR '']''"
    "source g0 ! 0 = CHR ''[''"
    by (simp_all add: matched_def)
  then have ne: "source g0 \<noteq> []" by auto
  from matched_jump [OF ji assms(3)] g
  show a: "array_read (jumps g) pc = Inr 0" and b: "array_read (jumps g) 0 = Inr pc"
    by (simp_all add: array_read_def)
  show c: "size_sub 0 1 = SIZE_MAX" by (rule size_sub_0_1)
  show d: "size_add SIZE_MAX 1 = 0" by (rule size_add_max_1)
  from a m s g show e: "execute_switch pc g = Proceed SIZE_MAX g"
    by (simp add: execute_switch_def c del: One_nat_def)
  from e m s g show "step (Running pc g) = Running 0 g"
    by (simp add: source_size_def d del: One_nat_def)
  from m assms(2) have i: "size_add pc 1 = Suc pc" "size_add 0 1 = 1"
    by (simp_all add: size_add_small)
  { assume "cells g ! cellptr g = 0"
    with b m s g i ne show "step (Running 0 g) = Running (Suc pc) g"
      by (simp add: execute_switch_def source_size_def del: One_nat_def) }
  { assume "cells g ! cellptr g \<noteq> 0"
    with b m s g i ne show "step (Running 0 g) = Running 1 g"
      by (simp add: execute_switch_def source_size_def del: One_nat_def) }
qed

theorem loop_close_to_offset_zero_witness:
  "\<exists>g1. prepare (initial_globals ''[-]'' False []) = Inr (True, g1)
     \<and> length (source (initial_globals ''[-]'' False [])) \<le> SIZE_MAX
     \<and> matched (source (initial_globals ''[-]'' False [])) 0 2
     \<and> cells (g1\<lparr>cells := (cells g1)[0 := 1]\<rparr>) ! cellptr (g1\<lparr>cells := (cells g1)[0 := 1]\<rparr>) \<noteq> 0
     \<and> execute_switch 2 (g1\<lparr>cells := (cells g1)[0 := 1]\<rparr>)
         = Proceed SIZE_MAX (g1\<lparr>cells := (cells g1)[0 := 1]\<rparr>)
     \<and> step (Running 2 (g1\<lparr>cells := (cells g1)[0 := 1]\<rparr>))
         = Running 0 (g1\<lparr>cells := (cells g1)[0 := 1]\<rparr>)
     \<and> step (Running 0 (g1\<lparr>cells := (cells g1)[0 := 1]\<rparr>))
         = Running 1 (g1\<lparr>cells := (cells g1)[0 := 1]\<rparr>)
     \<and> cells g1 ! cellptr g1 = 0
     \<and> step (Running 2 g1) = Running 0 g1
     \<and> step (Running 0 g1) = Running (Suc 2) g1
     \<and> bfi 1 ''[-]'' False [] = Running 3 g1 \<and> (3::nat) \<noteq> 2"
proof -
  let ?ini = "initial_globals ''[-]'' False []"
  let ?pre = "?ini\<lparr>lines := [Some 1, Some 1, Some 1], jumps := [Some 2, None, Some 0]\<rparr>"
  let ?st = "?pre\<lparr>cells := (cells ?pre)[0 := 1]\<rparr>"
  have p: "prepare ?ini = Inr (True, ?pre)" by (simp add: bfi_eval)
  have le: "length (source ?ini) \<le> SIZE_MAX" by (simp add: initial_globals_def SIZE_MAX_def)
  have m: "matched (source ?ini) 0 2" by (simp add: matched_eval initial_globals_def)
  have s: "source ?ini = ''[-]''" by (simp add: initial_globals_def)
  have f: "source ?st = source ?pre \<and> jumps ?st = jumps ?pre" by simp
  have f': "source ?pre = source ?pre \<and> jumps ?pre = jumps ?pre" by simp
  have c: "cells ?st ! cellptr ?st \<noteq> 0" "cells ?pre ! cellptr ?pre = 0"
    by (simp_all add: initial_globals_def CELL_COUNT_def)
  have r: "bfi 1 ''[-]'' False [] = Running 3 ?pre" by (simp add: bfi_eval)
  note t1 = loop_close_to_offset_zero [OF p le m, where g = ?st and n = 1 and dbg = False
      and inp = "[]" and q = 3 and h = ?pre]
  note t2 = loop_close_to_offset_zero [OF p le m, where g = ?pre and n = 1 and dbg = False
      and inp = "[]" and q = 3 and h = ?pre]
  show ?thesis
  proof (intro exI [of _ ?pre] conjI)
    show "prepare ?ini = Inr (True, ?pre)" by (fact p)
    show "length (source ?ini) \<le> SIZE_MAX" by (fact le)
    show "matched (source ?ini) 0 2" by (fact m)
    show "cells ?st ! cellptr ?st \<noteq> 0" by (fact c)
    from t1 f show "execute_switch 2 ?st = Proceed SIZE_MAX ?st" by blast
    from t1 f show "step (Running 2 ?st) = Running 0 ?st" by blast
    from t1 f c(1) show "step (Running 0 ?st) = Running 1 ?st" by blast
    show "cells ?pre ! cellptr ?pre = 0" by (fact c)
    from t2 f' show "step (Running 2 ?pre) = Running 0 ?pre" by blast
    from t2 f' c(2) show "step (Running 0 ?pre) = Running (Suc 2) ?pre" by blast
    show "bfi 1 ''[-]'' False [] = Running 3 ?pre" by (fact r)
    from t2 r s show "(3::nat) \<noteq> 2" by simp
  qed
qed

end
